theory Spec2Isabelle
  imports Main "HOL-Library.Word" "HOL-Library.Multiset" "HOL-Library.Signed_Division"
begin

section \<open>Query-node segment: data model\<close>

text \<open>
  A shallow embedding of \<^verbatim>\<open>internal/querynode/segment.go\<close>. Go's \<^verbatim>\<open>int64\<close>,
  \<^verbatim>\<open>UniqueID\<close> (an \<^verbatim>\<open>int64\<close>) and \<^verbatim>\<open>Timestamp\<close> (a \<^verbatim>\<open>uint64\<close>) are 64-bit
  words: \<open>+\<close> and \<open>-\<close> wrap, \<open>\<le>\<close> and \<open><\<close> compare unsigned (timestamps),
  \<open>\<le>s\<close> and \<open><s\<close> compare signed (\<^verbatim>\<open>int64\<close>). The mutexes are not modelled: every
  function is one uninterrupted call.
\<close>

type_synonym int64 = "64 word"
type_synonym UniqueID = "64 word"
type_synonym Timestamp = "64 word"
type_synonym bytes = "8 word list"

text \<open>
  Errors are values. \<open>ErrSegmentUnhealthy id\<close> is
  \<^verbatim>\<open>fmt.Errorf("%w(segmentID=%d)", ErrSegmentUnhealthy, s.segmentID)\<close>, \<open>ErrMsg\<close> an
  error built from a message, \<open>ErrCStatus\<close> the error made of a non-zero engine status,
  \<open>ErrExternal\<close> an error handed back by a collaborator. A run-time panic (index out
  of range, failed type assertion) is not an error value in Go; it is the constructor
  \<open>GoPanic\<close>, so that it stays a visible branch of every function.
\<close>

datatype error =
    ErrSegmentUnhealthy UniqueID
  | ErrMsg string
  | ErrCStatus string int string
  | ErrExternal string
  | GoPanic string

fun is_panic :: "error \<Rightarrow> bool" where
  "is_panic (GoPanic m) = True"
| "is_panic e = False"

text \<open>
  Modelled from the spec: \<^verbatim>\<open>storage.PrimaryKey\<close> (not in src), "int64 or string
  variant"; \<open>OtherPK\<close> stands for an implementation of any other key type, the one
  the \<^verbatim>\<open>default\<close> branches of the source are written for.
\<close>

datatype primaryKey = Int64PK int64 | VarCharPK string | OtherPK

datatype DeleteRecord = DeleteRecord (pk: primaryKey) (timestamp: Timestamp)

record DeleteRecords =
  records :: "DeleteRecord list"
  flushed :: bool

subsection \<open>The delete buffer\<close>

text \<open>
  The loop of \<^verbatim>\<open>TryAppend\<close>: \<^verbatim>\<open>for i := range pks\<close> appends
  \<^verbatim>\<open>DeleteRecord{pks[i], timestamps[i]}\<close>; \<^verbatim>\<open>timestamps[i]\<close> panics when the
  timestamps run out first, after the earlier records were appended.
\<close>

fun appendRecords ::
  "primaryKey list \<Rightarrow> Timestamp list \<Rightarrow> DeleteRecord list \<Rightarrow> error option \<times> DeleteRecord list" where
  "appendRecords [] tss recs = (None, recs)"
| "appendRecords (k # ks) [] recs = (Some (GoPanic ''index out of range''), recs)"
| "appendRecords (k # ks) (t # ts) recs = appendRecords ks ts (recs @ [DeleteRecord k t])"

definition TryAppend ::
  "primaryKey list \<Rightarrow> Timestamp list \<Rightarrow> DeleteRecords \<Rightarrow> (error + bool) \<times> DeleteRecords" where
  "TryAppend pks timestamps r =
     (if flushed r then (Inr False, r)
      else (case appendRecords pks timestamps (records r) of
              (Some e, recs) \<Rightarrow> (Inl e, r\<lparr>records := recs\<rparr>)
            | (None, recs) \<Rightarrow> (Inr True, r\<lparr>records := recs\<rparr>)))"

text \<open>
  \<^verbatim>\<open>ByTimestamp\<close> is the \<^verbatim>\<open>sort.Interface\<close> of the record slice; its
  \<^verbatim>\<open>Less(i, j)\<close> is \<^verbatim>\<open>a[i].timestamp < a[j].timestamp\<close>, here on the two elements.
\<close>

definition ByTimestamp_Less :: "DeleteRecord \<Rightarrow> DeleteRecord \<Rightarrow> bool" where
  "ByTimestamp_Less a b = (timestamp a < timestamp b)"

text \<open>
  \<^verbatim>\<open>Flush\<close> sorts \<^verbatim>\<open>r.records\<close> in place with the standard library's
  \<^verbatim>\<open>sort.Sort(ByTimestamp(r.records))\<close>. The library is not part of the repository
  and its algorithm changed between Go releases, so the sort is the parameter
  \<open>sortFn\<close>, which takes the \<^verbatim>\<open>Less\<close> of the interface it is given. What the library
  documents is \<open>sort_Sort_contract\<close>: for a \<^verbatim>\<open>Less\<close> that is a strict weak ordering,
  the result holds the same elements "in ascending order as determined by the Less
  method" (no element is less than an earlier one); "the sort is not guaranteed to be
  stable".

  The handler is a closure over the caller's state \<open>'st\<close>: it takes the state and
  returns the error and the new state.
\<close>

definition strictWeakOrder :: "('a \<Rightarrow> 'a \<Rightarrow> bool) \<Rightarrow> bool" where
  "strictWeakOrder lessFn \<longleftrightarrow>
     (\<forall>a b. lessFn a b \<longrightarrow> \<not> lessFn b a) \<and>
     (\<forall>a b c. \<not> lessFn b a \<and> \<not> lessFn c b \<longrightarrow> \<not> lessFn c a)"

definition sort_Sort_contract ::
  "((DeleteRecord \<Rightarrow> DeleteRecord \<Rightarrow> bool) \<Rightarrow> DeleteRecord list \<Rightarrow> DeleteRecord list) \<Rightarrow> bool" where
  "sort_Sort_contract sortFn \<longleftrightarrow>
     (\<forall>lessFn xs. strictWeakOrder lessFn \<longrightarrow>
        sorted_wrt (\<lambda>a b. \<not> lessFn b a) (sortFn lessFn xs) \<and> mset (sortFn lessFn xs) = mset xs)"

definition Flush ::
  "((DeleteRecord \<Rightarrow> DeleteRecord \<Rightarrow> bool) \<Rightarrow> DeleteRecord list \<Rightarrow> DeleteRecord list) \<Rightarrow>
   (primaryKey list \<Rightarrow> Timestamp list \<Rightarrow> 'st \<Rightarrow> error option \<times> 'st) \<Rightarrow>
   DeleteRecords \<Rightarrow> 'st \<Rightarrow> error option \<times> DeleteRecords \<times> 'st" where
  "Flush sortFn handler r st =
     (let recs = sortFn ByTimestamp_Less (records r);
          r1 = r\<lparr>records := recs\<rparr>;
          pks = map pk recs;
          timestamps = map timestamp recs
      in (case handler pks timestamps st of
            (Some err, st') \<Rightarrow> (Some err, r1, st')
          | (None, st') \<Rightarrow> (None, r1\<lparr>records := [], flushed := True\<rparr>, st')))"

text \<open>A handler that only records the arguments of each of its invocations.\<close>

definition recordingHandler ::
  "error option \<Rightarrow> primaryKey list \<Rightarrow> Timestamp list \<Rightarrow>
   (primaryKey list \<times> Timestamp list) list \<Rightarrow>
   error option \<times> (primaryKey list \<times> Timestamp list) list" where
  "recordingHandler res pks tss log = (res, log @ [(pks, tss)])"

text \<open>
  Two algorithms that \<^verbatim>\<open>sort.Sort\<close> has been on short slices. Insertion sort (Go 1.19
  and later, at most 12 elements): each element in turn moves left past the elements it
  is \<^verbatim>\<open>Less\<close> than, so it lands behind the sorted elements it is not less than; this
  one is stable. Up to Go 1.18 a slice of at most 12 elements first went through one
  pass that swaps \<^verbatim>\<open>data[i]\<close> and \<^verbatim>\<open>data[i-6]\<close> when \<^verbatim>\<open>Less(i, i-6)\<close>, and then
  through insertion sort.
\<close>

fun insertBy :: "('a \<Rightarrow> 'a \<Rightarrow> bool) \<Rightarrow> 'a \<Rightarrow> 'a list \<Rightarrow> 'a list" where
  "insertBy lessFn x [] = [x]"
| "insertBy lessFn x (y # ys) = (if lessFn x y then x # y # ys else y # insertBy lessFn x ys)"

definition insertionSort :: "('a \<Rightarrow> 'a \<Rightarrow> bool) \<Rightarrow> 'a list \<Rightarrow> 'a list" where
  "insertionSort lessFn xs = foldl (\<lambda>acc x. insertBy lessFn x acc) [] xs"

fun gapPass :: "('a \<Rightarrow> 'a \<Rightarrow> bool) \<Rightarrow> nat \<Rightarrow> nat \<Rightarrow> 'a list \<Rightarrow> 'a list" where
  "gapPass lessFn 0 i xs = xs"
| "gapPass lessFn (Suc n) i xs =
     gapPass lessFn n (Suc i)
       (if lessFn (xs ! i) (xs ! (i - 6))
        then xs[i := xs ! (i - 6), i - 6 := xs ! i] else xs)"

definition shellInsertionSort :: "('a \<Rightarrow> 'a \<Rightarrow> bool) \<Rightarrow> 'a list \<Rightarrow> 'a list" where
  "shellInsertionSort lessFn xs = insertionSort lessFn (gapPass lessFn (length xs - 6) 6 xs)"

section \<open>The segment and the native engine\<close>

text \<open>
  The native engine is reached only through calls on the segment's handle
  \<^verbatim>\<open>s.segmentPtr\<close> (\<open>None\<close> is \<^verbatim>\<open>nil\<close>). Each call is a value of \<open>engine_call\<close>
  carrying the arguments the source passes; the engine is a parameter that answers a
  call, given the calls made so far, with a status and a number (a count, an offset, a
  result handle, or a boolean as 0 or 1). The segment keeps the list of the calls
  made on its handle in \<open>engineCalls\<close>, which is not a field of the Go struct: it is
  what "calls into the engine" means here. Work is submitted to the pools and awaited
  at once, so a submission is the call itself. Logging and metrics are left out.
\<close>

type_synonym CSegmentInterface = "nat option"

record CStatus =
  error_code :: int
  error_msg :: string

record engine_reply =
  status :: CStatus
  num :: int64

datatype engine_call =
    C_DeleteSegment
  | C_HasRawData int64
  | C_GetRealCount
  | C_GetRowCount
  | C_GetDeletedCount
  | C_GetMemoryUsageInBytes
  | C_Search nat nat Timestamp
  | C_Retrieve nat Timestamp int64
  | C_PreInsert int64
  | C_Insert int64 int64 "UniqueID list" "Timestamp list" bytes
  | C_Delete int64 int64 bytes "Timestamp list"
  | C_LoadFieldData "(int64 \<times> int64 \<times> string list) list"
  | C_LoadDeletedRecord "Timestamp list" bytes int64
  | C_UpdateSealedSegmentIndex nat
  | C_UpdateFieldRawDataSize int64 int64 int64

type_synonym engine_log = "(CSegmentInterface \<times> engine_call) list"

datatype segmentType = segmentTypeGrowing | segmentTypeSealed | segmentTypeOther

datatype DataType =
    DataType_None | DataType_Bool | DataType_Int8 | DataType_Int16 | DataType_Int32
  | DataType_Int64 | DataType_Float | DataType_Double | DataType_String
  | DataType_VarChar | DataType_BinaryVector | DataType_FloatVector

record Binlog =
  EntriesNum :: int64
  LogPath :: string
  LogSize :: int64

record FieldBinlog =
  FieldID :: int64
  Binlogs :: "Binlog list"

record FieldIndexInfo =
  IndexFieldID :: int64
  EnableIndex :: bool

record IndexedFieldInfo =
  fieldBinlog :: "FieldBinlog option"
  indexInfo :: "FieldIndexInfo option"

datatype IDs = IntId "int64 list" | StrId "string list"

record FieldData =
  Type :: DataType
  FieldId :: int64
  Dim :: int64

record RetrieveResults =
  Offset :: "int64 list"
  FieldsData :: "FieldData list"




text \<open>
  The segment. \<open>'stat\<close> is \<^verbatim>\<open>storage.PkStatistics\<close>, one generation of the
  primary-key existence index (not in src). \<open>lazyLoading\<close> is a pointer to an atomic
  flag that may be \<^verbatim>\<open>nil\<close>.
\<close>

record 'stat Segment =
  segmentPtr :: CSegmentInterface
  segmentID :: UniqueID
  partitionID :: UniqueID
  collectionID :: UniqueID
  deleteBuffer :: DeleteRecords
  flushedDeletedTimestamp :: Timestamp
  recentlyModified :: bool
  segmentType :: segmentType
  destroyed :: bool
  lazyLoading :: "bool option"
  indexedFieldInfos :: "UniqueID \<rightharpoonup> IndexedFieldInfo"
  currentStat :: "'stat option"
  historyStats :: "'stat list"
  engineCalls :: engine_log

text \<open>
  What the source takes from outside this file, as parameters: the engine; the library
  sort of \<^verbatim>\<open>Flush\<close>; \<^verbatim>\<open>proto.Marshal\<close> of a key set and of an insert record (an
  error text or the bytes); the load-info helpers of the field and index loading paths
  (each an optional error); the operations of \<^verbatim>\<open>storage.PkStatistics\<close> and of its
  bloom filter; \<^verbatim>\<open>common.Endian.PutUint64\<close>; the configured maximum output size;
  \<^verbatim>\<open>HandleCProto\<close>, which decodes the engine's retrieve result; and the sort of a
  retrieve result by primary key.
\<close>

record 'stat env =
  engine :: "engine_log \<Rightarrow> CSegmentInterface \<Rightarrow> engine_call \<Rightarrow> engine_reply"
  sort_Sort :: "(DeleteRecord \<Rightarrow> DeleteRecord \<Rightarrow> bool) \<Rightarrow> DeleteRecord list \<Rightarrow> DeleteRecord list"
  marshalIDs :: "IDs \<Rightarrow> string + bytes"
  marshalInsertRecord :: "nat \<Rightarrow> string + bytes"
  newLoadFieldDataInfo :: "error option"
  appendLoadFieldInfo :: "int64 \<Rightarrow> int64 \<Rightarrow> error option"
  appendLoadFieldDataPath :: "int64 \<Rightarrow> string \<Rightarrow> error option"
  newLoadIndexInfo :: "error option"
  appendLoadIndexInfo :: "FieldIndexInfo \<Rightarrow> DataType \<Rightarrow> error option"
  newPkStatistics :: "'stat"
  UpdateMinMax :: "primaryKey \<Rightarrow> 'stat \<Rightarrow> 'stat"
  PkFilterAdd :: "bytes \<Rightarrow> 'stat \<Rightarrow> 'stat"
  PkFilterAddString :: "string \<Rightarrow> 'stat \<Rightarrow> 'stat"
  PkExist :: "'stat \<Rightarrow> primaryKey \<Rightarrow> bool"
  EndianPutUint64 :: "64 word \<Rightarrow> bytes"
  MaxOutputSize :: int64
  HandleCProto :: "int64 \<Rightarrow> error + RetrieveResults"
  sortByPK :: "RetrieveResults \<Rightarrow> RetrieveResults"

text \<open>
  Modelled from the spec: \<^verbatim>\<open>HandleCStatus\<close> (the cgo helper, not in src): a non-zero
  status from an engine call is "translated into a descriptive error including the
  originating operation name"; status 0 is \<^verbatim>\<open>nil\<close>.
\<close>

definition HandleCStatus :: "CStatus \<Rightarrow> string \<Rightarrow> error option" where
  "HandleCStatus st extraInfo =
     (if error_code st = 0 then None
      else Some (ErrCStatus extraInfo (error_code st) (error_msg st)))"

definition callEngine :: "'stat env \<Rightarrow> engine_call \<Rightarrow> 'stat Segment \<Rightarrow> engine_reply \<times> 'stat Segment" where
  "callEngine env c s =
     (engine env (engineCalls s) (segmentPtr s) c,
      s\<lparr>engineCalls := engineCalls s @ [(segmentPtr s, c)]\<rparr>)"

definition unhealthyError :: "'stat Segment \<Rightarrow> error" where
  "unhealthyError s = ErrSegmentUnhealthy (segmentID s)"

definition healthy :: "'stat Segment \<Rightarrow> bool" where
  "healthy s = (\<not> destroyed s)"

definition setUnhealthy :: "'stat Segment \<Rightarrow> 'stat Segment" where
  "setUnhealthy s = s\<lparr>destroyed := True\<rparr>"

definition getType :: "'stat Segment \<Rightarrow> segmentType" where
  "getType s = segmentType s"


text \<open>
  \<^verbatim>\<open>newSegment\<close>: the segment as created, healthy, with an empty unflushed delete buffer
  and watermark 0; \<open>ptr\<close> is the handle the engine returned. A type other than growing
  or sealed is an error.
\<close>

definition newSegment ::
  "CSegmentInterface \<Rightarrow> UniqueID \<Rightarrow> UniqueID \<Rightarrow> UniqueID \<Rightarrow> segmentType \<Rightarrow> error + 'stat Segment" where
  "newSegment ptr segID partID collID segType =
     (if segType = segmentTypeSealed \<or> segType = segmentTypeGrowing then
        Inr \<lparr>segmentPtr = ptr, segmentID = segID, partitionID = partID, collectionID = collID,
             deleteBuffer = \<lparr>records = [], flushed = False\<rparr>, flushedDeletedTimestamp = 0,
             recentlyModified = False, segmentType = segType, destroyed = False,
             lazyLoading = Some False, indexedFieldInfos = Map.empty, currentStat = None,
             historyStats = [], engineCalls = []\<rparr>
      else Inl (ErrMsg ''illegal segment type when create segment''))"


subsection \<open>Counters and flags read from the engine\<close>






subsection \<open>Search and retrieve\<close>



subsection \<open>The primary-key existence index\<close>

fun pkType :: "primaryKey \<Rightarrow> DataType" where
  "pkType (Int64PK v) = DataType_Int64"
| "pkType (VarCharPK v) = DataType_VarChar"
| "pkType OtherPK = DataType_None"

definition InitCurrentStat :: "'stat env \<Rightarrow> 'stat Segment \<Rightarrow> 'stat Segment" where
  "InitCurrentStat env s =
     (if currentStat s = None then s\<lparr>currentStat := Some (newPkStatistics env)\<rparr> else s)"

text \<open>
  The loop of \<^verbatim>\<open>updateBloomFilter\<close> over the keys, on the current generation: a key of
  an unsupported type panics, after the earlier keys were added.
\<close>

fun updateStat :: "'stat env \<Rightarrow> primaryKey list \<Rightarrow> 'stat \<Rightarrow> error option \<times> 'stat" where
  "updateStat env [] st = (None, st)"
| "updateStat env (k # ks) st =
     (let st1 = UpdateMinMax env k st in
      case k of
        Int64PK int64Value \<Rightarrow>
          updateStat env ks (PkFilterAdd env (EndianPutUint64 env int64Value) st1)
      | VarCharPK stringValue \<Rightarrow>
          updateStat env ks (PkFilterAddString env stringValue st1)
      | OtherPK \<Rightarrow> (Some (GoPanic ''failed to update bloomfilter''), st1))"

definition updateBloomFilter ::
  "'stat env \<Rightarrow> primaryKey list \<Rightarrow> 'stat Segment \<Rightarrow> error option \<times> 'stat Segment" where
  "updateBloomFilter env pks s =
     (let s1 = InitCurrentStat env s in
      case currentStat s1 of
        None \<Rightarrow> (Some (GoPanic ''nil pointer dereference''), s1)
      | Some st \<Rightarrow>
          (case updateStat env pks st of
             (res, st') \<Rightarrow> (res, s1\<lparr>currentStat := Some st'\<rparr>)))"

definition isLazyLoading :: "'stat Segment \<Rightarrow> bool" where
  "isLazyLoading s = (case lazyLoading s of None \<Rightarrow> False | Some b \<Rightarrow> b)"

fun historyPkExist :: "'stat env \<Rightarrow> 'stat list \<Rightarrow> primaryKey \<Rightarrow> bool" where
  "historyPkExist env [] key = False"
| "historyPkExist env (historyStat # rest) key =
     (if PkExist env historyStat key then True else historyPkExist env rest key)"

definition isPKExist :: "'stat env \<Rightarrow> primaryKey \<Rightarrow> 'stat Segment \<Rightarrow> bool" where
  "isPKExist env key s =
     (if isLazyLoading s then True
      else if (case currentStat s of None \<Rightarrow> False | Some st \<Rightarrow> PkExist env st key) then True
      else historyPkExist env (historyStats s) key)"

text \<open>
  What the source relies on from the generation it is given: a key just added is
  reported, and a key that was reported stays reported when another key is added (a
  bloom filter with its running minimum and maximum has no false negatives).
\<close>

definition addKey :: "'stat env \<Rightarrow> primaryKey \<Rightarrow> 'stat \<Rightarrow> 'stat" where
  "addKey env k st =
     (case k of
        Int64PK v \<Rightarrow> PkFilterAdd env (EndianPutUint64 env v) (UpdateMinMax env k st)
      | VarCharPK v \<Rightarrow> PkFilterAddString env v (UpdateMinMax env k st)
      | OtherPK \<Rightarrow> UpdateMinMax env k st)"

definition noFalseNegatives :: "'stat env \<Rightarrow> bool" where
  "noFalseNegatives env \<longleftrightarrow>
     (\<forall>st k. k \<noteq> OtherPK \<longrightarrow> PkExist env (addKey env k st) k) \<and>
     (\<forall>st k k'. PkExist env st k \<longrightarrow> PkExist env (addKey env k' st) k)"

subsection \<open>Insert\<close>

definition segmentPreInsert ::
  "'stat env \<Rightarrow> int64 \<Rightarrow> 'stat Segment \<Rightarrow> (int64 \<times> error option) \<times> 'stat Segment" where
  "segmentPreInsert env numOfRecords s =
     (if getType s \<noteq> segmentTypeGrowing then ((0, None), s)
      else if \<not> healthy s then ((- 1, Some (unhealthyError s)), s)
      else (case callEngine env (C_PreInsert numOfRecords) s of
              (reply, s') \<Rightarrow>
                (case HandleCStatus (status reply) ''PreInsert failed'' of
                   Some err \<Rightarrow> ((0, Some err), s')
                 | None \<Rightarrow> ((num reply, None), s'))))"


subsection \<open>Delete\<close>

text \<open>
  \<^verbatim>\<open>sort.Search(n, f)\<close> of the standard library, a binary search that has not changed:
  \<^verbatim>\<open>i, j := 0, n; for i < j { h := int(uint(i+j) >> 1); if !f(h) { i = h + 1 } else { j = h } }; return i\<close>.
\<close>

function searchLoop :: "(nat \<Rightarrow> bool) \<Rightarrow> nat \<Rightarrow> nat \<Rightarrow> nat" where
  "searchLoop f i j =
     (if i < j then
        (let h = (i + j) div 2 in
         if \<not> f h then searchLoop f (h + 1) j else searchLoop f i h)
      else i)"
  by pat_completeness auto
termination
  by (relation "measure (\<lambda>(f, i, j). j - i)") auto

declare searchLoop.simps [simp del]

definition sort_Search :: "nat \<Rightarrow> (nat \<Rightarrow> bool) \<Rightarrow> nat" where
  "sort_Search n f = searchLoop f 0 n"

text \<open>
  The conversion loops of \<^verbatim>\<open>deleteImpl\<close> and \<^verbatim>\<open>segmentLoadDeletedRecord\<close>:
  \<^verbatim>\<open>entity.(*int64PrimaryKey).Value\<close> for every key; \<open>None\<close> is the panic of a type
  assertion on a key of another type.
\<close>

fun int64Values :: "primaryKey list \<Rightarrow> int64 list option" where
  "int64Values [] = Some []"
| "int64Values (Int64PK v # ks) = map_option ((#) v) (int64Values ks)"
| "int64Values (k # ks) = None"

fun varCharValues :: "primaryKey list \<Rightarrow> string list option" where
  "varCharValues [] = Some []"
| "varCharValues (VarCharPK v # ks) = map_option ((#) v) (varCharValues ks)"
| "varCharValues (k # ks) = None"

text \<open>
  The key set of a non-empty key sequence, by the type of the first key: the keys'
  values, a panic of the type assertion, or the error of the \<^verbatim>\<open>default\<close> branch.
\<close>

definition idsOfKeys :: "primaryKey list \<Rightarrow> error + IDs" where
  "idsOfKeys pks =
     (case pks of
        [] \<Rightarrow> Inl (GoPanic ''index out of range'')
      | k # ks \<Rightarrow>
          (case pkType k of
             DataType_Int64 \<Rightarrow>
               (case int64Values pks of
                  None \<Rightarrow> Inl (GoPanic ''interface conversion'')
                | Some int64Pks \<Rightarrow> Inr (IntId int64Pks))
           | DataType_VarChar \<Rightarrow>
               (case varCharValues pks of
                  None \<Rightarrow> Inl (GoPanic ''interface conversion'')
                | Some varCharPks \<Rightarrow> Inr (StrId varCharPks))
           | _ \<Rightarrow> Inl (ErrMsg ''invalid data type of primary keys'')))"

definition deleteImpl ::
  "'stat env \<Rightarrow> primaryKey list \<Rightarrow> Timestamp list \<Rightarrow> 'stat Segment \<Rightarrow> error option \<times> 'stat Segment" where
  "deleteImpl env pks timestamps s =
     (if \<not> healthy s then (Some (unhealthyError s), s)
      else
        (let start = sort_Search (length timestamps)
                       (\<lambda>i. timestamps ! i \<ge> flushedDeletedTimestamp s + 1)
         in if start = length timestamps then (None, s)
            else if start > length pks then (Some (GoPanic ''slice bounds out of range''), s)
            else
              (let pks' = drop start pks;
                   timestamps' = drop start timestamps
               in case idsOfKeys pks' of
                    Inl err \<Rightarrow> (Some err, s)
                  | Inr ids \<Rightarrow>
                      (case marshalIDs env ids of
                         Inl m \<Rightarrow> (Some (ErrMsg (''failed to marshal ids: '' @ m)), s)
                       | Inr dataBlob \<Rightarrow>
                           if dataBlob = [] then (Some (GoPanic ''index out of range''), s)
                           else
                             (case callEngine env
                                     (C_Delete 0 (of_nat (length pks')) dataBlob timestamps') s of
                                (reply, s') \<Rightarrow>
                                  (HandleCStatus (status reply) ''flush delete records failed'',
                                   s'))))))"

text \<open>
  The handler \<^verbatim>\<open>FlushDelete\<close> passes to \<^verbatim>\<open>Flush\<close>, a closure over the segment; it
  does not touch the delete buffer, which \<^verbatim>\<open>Flush\<close> holds meanwhile.
\<close>

definition flushDeleteHandler ::
  "'stat env \<Rightarrow> primaryKey list \<Rightarrow> Timestamp list \<Rightarrow> 'stat Segment \<Rightarrow> error option \<times> 'stat Segment" where
  "flushDeleteHandler env pks tss s =
     (if length pks = 0 then (None, s)
      else (case deleteImpl env pks tss s of
              (Some err, s') \<Rightarrow> (Some err, s')
            | (None, s') \<Rightarrow> (None, s'\<lparr>flushedDeletedTimestamp := tss ! (length pks - 1)\<rparr>)))"

definition FlushDelete :: "'stat env \<Rightarrow> 'stat Segment \<Rightarrow> error option \<times> 'stat Segment" where
  "FlushDelete env s =
     (case Flush (sort_Sort env) (flushDeleteHandler env) (deleteBuffer s) s of
        (res, r', s') \<Rightarrow> (res, s'\<lparr>deleteBuffer := r'\<rparr>))"

definition segmentDelete ::
  "'stat env \<Rightarrow> primaryKey list \<Rightarrow> Timestamp list \<Rightarrow> 'stat Segment \<Rightarrow> error option \<times> 'stat Segment" where
  "segmentDelete env entityIDs timestamps s =
     (if length entityIDs \<le> 0 then (Some (ErrMsg ''empty pks to delete''), s)
      else if length entityIDs \<noteq> length timestamps then
        (Some (ErrMsg ''length of entityIDs not equal to length of timestamps''), s)
      else (case TryAppend entityIDs timestamps (deleteBuffer s) of
              (Inl panic, r') \<Rightarrow> (Some panic, s\<lparr>deleteBuffer := r'\<rparr>)
            | (Inr True, r') \<Rightarrow> (None, s\<lparr>deleteBuffer := r'\<rparr>)
            | (Inr False, r') \<Rightarrow> deleteImpl env entityIDs timestamps (s\<lparr>deleteBuffer := r'\<rparr>)))"

subsection \<open>Loading a sealed segment\<close>

definition segmentLoadDeletedRecord ::
  "'stat env \<Rightarrow> primaryKey list \<Rightarrow> Timestamp list \<Rightarrow> int64 \<Rightarrow> 'stat Segment \<Rightarrow>
   error option \<times> 'stat Segment" where
  "segmentLoadDeletedRecord env primaryKeys timestamps rowCount s =
     (case TryAppend primaryKeys timestamps (deleteBuffer s) of
        (Inl panic, r') \<Rightarrow> (Some panic, s\<lparr>deleteBuffer := r'\<rparr>)
      | (Inr True, r') \<Rightarrow> (None, s\<lparr>deleteBuffer := r'\<rparr>)
      | (Inr False, r') \<Rightarrow>
          (let s0 = s\<lparr>deleteBuffer := r'\<rparr> in
           if \<not> healthy s0 then (Some (unhealthyError s0), s0)
           else if length primaryKeys \<le> 0 then (Some (ErrMsg ''empty pks to delete''), s0)
           else
             (case idsOfKeys primaryKeys of
                Inl err \<Rightarrow> (Some err, s0)
              | Inr ids \<Rightarrow>
                  (case marshalIDs env ids of
                     Inl m \<Rightarrow> (Some (ErrExternal m), s0)
                   | Inr idsBlob \<Rightarrow>
                       if timestamps = [] \<or> idsBlob = [] then
                         (Some (GoPanic ''index out of range''), s0)
                       else
                         (case callEngine env (C_LoadDeletedRecord timestamps idsBlob rowCount) s0 of
                            (reply, s') \<Rightarrow>
                              (HandleCStatus (status reply) ''LoadDeletedRecord failed'', s'))))))"








subsection \<open>Hydration of indexed fields\<close>

definition setIndexedFieldInfo :: "UniqueID \<Rightarrow> IndexedFieldInfo \<Rightarrow> 'stat Segment \<Rightarrow> 'stat Segment" where
  "setIndexedFieldInfo fieldID info s =
     (case indexedFieldInfos s fieldID of
        None \<Rightarrow> s\<lparr>indexedFieldInfos := (indexedFieldInfos s)(fieldID \<mapsto> info)\<rparr>
      | Some old \<Rightarrow> s)"















subsection \<open>A concrete environment and segment, for the concrete instances below\<close>

text \<open>
  An engine that answers every call with the given status code and the number 42; a
  key set marshalled as a tag byte followed by one byte for each key; a
  generation that keeps the byte strings and the strings added to its filter, and is
  asked by exact membership; keys encoded with the low byte first.
\<close>

definition sampleReply :: "int \<Rightarrow> engine_reply" where
  "sampleReply code = \<lparr>status = \<lparr>error_code = code, error_msg = ''engine''\<rparr>, num = 42\<rparr>"

definition littleEndian64 :: "64 word \<Rightarrow> bytes" where
  "littleEndian64 v = map (\<lambda>i. ucast (drop_bit (8 * i) v)) [0..<8]"

fun samplePkExist :: "bytes list \<times> string list \<Rightarrow> primaryKey \<Rightarrow> bool" where
  "samplePkExist (bs, ss) (Int64PK v) = (littleEndian64 v \<in> set bs)"
| "samplePkExist (bs, ss) (VarCharPK v) = (v \<in> set ss)"
| "samplePkExist (bs, ss) OtherPK = False"

definition sampleEnv :: "int \<Rightarrow> (bytes list \<times> string list) env" where
  "sampleEnv code =
     \<lparr>engine = (\<lambda>log ptr c. sampleReply code),
      sort_Sort = insertionSort,
      marshalIDs = (\<lambda>ids. case ids of IntId vs \<Rightarrow> Inr (1 # map ucast vs)
                                   | StrId ss \<Rightarrow> Inr (2 # map (of_nat \<circ> length) ss)),
      marshalInsertRecord = (\<lambda>r. Inr [1]),
      newLoadFieldDataInfo = None,
      appendLoadFieldInfo = (\<lambda>f n. None),
      appendLoadFieldDataPath = (\<lambda>f p. None),
      newLoadIndexInfo = None,
      appendLoadIndexInfo = (\<lambda>i t. None),
      newPkStatistics = ([], []),
      UpdateMinMax = (\<lambda>k st. st),
      PkFilterAdd = (\<lambda>b (bs, ss). (b # bs, ss)),
      PkFilterAddString = (\<lambda>v (bs, ss). (bs, v # ss)),
      PkExist = samplePkExist,
      EndianPutUint64 = littleEndian64,
      MaxOutputSize = 1024,
      HandleCProto = (\<lambda>h. Inr \<lparr>Offset = [], FieldsData = []\<rparr>),
      sortByPK = (\<lambda>r. r)\<rparr>"

definition sampleSegment :: "segmentType \<Rightarrow> (bytes list \<times> string list) Segment" where
  "sampleSegment segType =
     \<lparr>segmentPtr = Some 1, segmentID = 7, partitionID = 2, collectionID = 3,
      deleteBuffer = \<lparr>records = [], flushed = False\<rparr>, flushedDeletedTimestamp = 0,
      recentlyModified = False, segmentType = segType, destroyed = False,
      lazyLoading = Some False, indexedFieldInfos = Map.empty, currentStat = None,
      historyStats = [], engineCalls = []\<rparr>"

section \<open>Properties of the delete buffer\<close>

lemma appendRecords_ok:
  "length pks \<le> length tss \<Longrightarrow>
   appendRecords pks tss recs = (None, recs @ map2 DeleteRecord pks tss)"
proof (induction pks tss recs rule: appendRecords.induct)
  case (1 tss recs)
  then show ?case by simp
next
  case (2 k ks recs)
  then show ?case by simp
next
  case (3 k ks t ts recs)
  then show ?case by simp
qed

lemma ByTimestamp_Less_order: "strictWeakOrder ByTimestamp_Less"
  by (auto simp: strictWeakOrder_def ByTimestamp_Less_def)

lemma insertBy_mset: "mset (insertBy lessFn x ys) = add_mset x (mset ys)"
  by (induction ys) simp_all

lemma insertBy_set: "set (insertBy lessFn x ys) = insert x (set ys)"
  by (induction ys) auto

lemma insertBy_sorted:
  assumes "strictWeakOrder lessFn" "sorted_wrt (\<lambda>a b. \<not> lessFn b a) ys"
  shows "sorted_wrt (\<lambda>a b. \<not> lessFn b a) (insertBy lessFn x ys)"
  using assms(2)
proof (induction ys)
  case Nil
  then show ?case by simp
next
  case (Cons y ys)
  have asym: "\<And>a b. lessFn a b \<Longrightarrow> \<not> lessFn b a"
    and trans: "\<And>a b c. \<not> lessFn b a \<Longrightarrow> \<not> lessFn c b \<Longrightarrow> \<not> lessFn c a"
    using assms(1) unfolding strictWeakOrder_def by blast+
  show ?case
  proof (cases "lessFn x y")
    case True
    then have xy: "\<not> lessFn y x" by (rule asym)
    have "\<not> lessFn z x" if "z \<in> set ys" for z
    proof -
      have "\<not> lessFn z y" using Cons.prems that by simp
      with xy show ?thesis by (rule trans)
    qed
    then show ?thesis using True xy Cons.prems by simp
  next
    case False
    then show ?thesis using Cons by (auto simp: insertBy_set)
  qed
qed

lemma foldl_insertBy:
  assumes "strictWeakOrder lessFn"
  shows "sorted_wrt (\<lambda>a b. \<not> lessFn b a) acc \<Longrightarrow>
         sorted_wrt (\<lambda>a b. \<not> lessFn b a) (foldl (\<lambda>acc x. insertBy lessFn x acc) acc xs) \<and>
         mset (foldl (\<lambda>acc x. insertBy lessFn x acc) acc xs) = mset acc + mset xs"
proof (induction xs arbitrary: acc)
  case Nil
  then show ?case by simp
next
  case (Cons x xs)
  have "sorted_wrt (\<lambda>a b. \<not> lessFn b a) (insertBy lessFn x acc)"
    using assms Cons.prems by (rule insertBy_sorted)
  from Cons.IH [OF this] show ?case by (simp add: insertBy_mset)
qed

lemma insertionSort_sorts:
  "strictWeakOrder lessFn \<Longrightarrow>
   sorted_wrt (\<lambda>a b. \<not> lessFn b a) (insertionSort lessFn xs) \<and> mset (insertionSort lessFn xs) = mset xs"
  using foldl_insertBy [of lessFn "[]" xs] by (simp add: insertionSort_def)

lemma insertionSort_contract: "sort_Sort_contract insertionSort"
  by (simp add: sort_Sort_contract_def insertionSort_sorts)

lemma gapPass_length: "length (gapPass lessFn n i xs) = length xs"
  by (induction lessFn n i xs rule: gapPass.induct) simp_all

lemma gapPass_mset:
  "i + n \<le> length xs \<Longrightarrow> 6 \<le> i \<Longrightarrow> mset (gapPass lessFn n i xs) = mset xs"
proof (induction lessFn n i xs rule: gapPass.induct)
  case (1 lessFn i xs)
  then show ?case by simp
next
  case (2 lessFn n i xs)
  have sw: "mset (xs[i := xs ! (i - 6), i - 6 := xs ! i]) = mset xs"
    using "2.prems" by (intro mset_swap) auto
  show ?case
  proof (cases "lessFn (xs ! i) (xs ! (i - 6))")
    case True
    then have "mset (gapPass lessFn (Suc n) i xs) = mset (xs[i := xs ! (i - 6), i - 6 := xs ! i])"
      using "2.IH" "2.prems" by simp
    then show ?thesis using sw by simp
  next
    case False
    then show ?thesis using "2.IH" "2.prems" by simp
  qed
qed

lemma shellInsertionSort_contract: "sort_Sort_contract shellInsertionSort"
proof -
  have "mset (gapPass lessFn (length xs - 6) 6 xs) = mset xs"
    for xs :: "DeleteRecord list" and lessFn
  proof (cases "6 \<le> length xs")
    case True
    then show ?thesis by (intro gapPass_mset) auto
  next
    case False
    then show ?thesis by simp
  qed
  then show ?thesis
    by (simp add: sort_Sort_contract_def shellInsertionSort_def insertionSort_sorts)
qed

text \<open>
  What the contract gives for the \<^verbatim>\<open>Less\<close> of \<^verbatim>\<open>ByTimestamp\<close>: the sorted slice
  holds the same records, with timestamps that never decrease.
\<close>

lemma sorted_by_timestamp:
  assumes "sort_Sort_contract sortFn"
  shows "sorted (map timestamp (sortFn ByTimestamp_Less xs)) \<and>
         mset (sortFn ByTimestamp_Less xs) = mset xs"
proof -
  have c: "sorted_wrt (\<lambda>a b. \<not> ByTimestamp_Less b a) (sortFn ByTimestamp_Less xs) \<and>
           mset (sortFn ByTimestamp_Less xs) = mset xs"
    using assms ByTimestamp_Less_order unfolding sort_Sort_contract_def by blast
  have "(\<lambda>a b. \<not> ByTimestamp_Less b a) = (\<lambda>a b. timestamp a \<le> timestamp b)"
    by (intro ext) (simp add: ByTimestamp_Less_def not_less)
  with c show ?thesis by (simp add: sorted_map)
qed

lemma TryAppend_flushed: "flushed r \<Longrightarrow> TryAppend pks tss r = (Inr False, r)"
  by (simp add: TryAppend_def)

lemma TryAppend_unflushed:
  "\<not> flushed r \<Longrightarrow> length pks \<le> length tss \<Longrightarrow>
   TryAppend pks tss r = (Inr True, r\<lparr>records := records r @ map2 DeleteRecord pks tss\<rparr>)"
  by (simp add: TryAppend_def appendRecords_ok)

lemma TryAppend_keeps_flushed: "flushed (snd (TryAppend pks tss r)) = flushed r"
  by (simp add: TryAppend_def split: prod.splits option.splits)

text \<open>
  Claim C3, as far as the code goes: \<^verbatim>\<open>Flush\<close> runs the handler exactly once, on the
  keys and the timestamps of the buffered records put in ascending order of timestamp
  by \<^verbatim>\<open>sort.Sort\<close> with the \<^verbatim>\<open>Less\<close> of \<^verbatim>\<open>ByTimestamp\<close>: what the handler is given
  are the keys and timestamps of a rearrangement of the buffered records whose
  timestamps never decrease; the error and the state that \<^verbatim>\<open>Flush\<close> hands back are
  those of one application of the handler to the state it started from; and a handler
  that records its calls has recorded exactly one more, with timestamps in ascending
  order. Nothing is said about the order of records with equal timestamps.
\<close>

theorem Flush_sorts_then_applies_once:
  assumes "sort_Sort_contract sortFn"
  shows "\<exists>recs. mset recs = mset (records r) \<and> sorted (map timestamp recs) \<and>
           (fst (Flush sortFn handler r st), snd (snd (Flush sortFn handler r st))) =
             handler (map pk recs) (map timestamp recs) st \<and>
           snd (snd (Flush sortFn (recordingHandler res) r log)) =
             log @ [(map pk recs, map timestamp recs)]"
proof (intro exI [of _ "sortFn ByTimestamp_Less (records r)"] conjI)
  show "mset (sortFn ByTimestamp_Less (records r)) = mset (records r)"
    using sorted_by_timestamp [OF assms] by blast
  show "sorted (map timestamp (sortFn ByTimestamp_Less (records r)))"
    using sorted_by_timestamp [OF assms] by blast
  show "(fst (Flush sortFn handler r st), snd (snd (Flush sortFn handler r st))) =
          handler (map pk (sortFn ByTimestamp_Less (records r)))
            (map timestamp (sortFn ByTimestamp_Less (records r))) st"
    by (simp add: Flush_def Let_def split: prod.splits option.splits)
  show "snd (snd (Flush sortFn (recordingHandler res) r log)) =
          log @ [(map pk (sortFn ByTimestamp_Less (records r)),
                  map timestamp (sortFn ByTimestamp_Less (records r)))]"
    by (simp add: Flush_def Let_def recordingHandler_def split: prod.splits option.splits)
qed

text \<open>
  For three buffered records with distinct timestamps 9, 3 and 5, the only
  rearrangement with ascending timestamps is the one the handler is given.
\<close>

theorem Flush_sorts_then_applies_once_witness:
  "sort_Sort_contract insertionSort \<and>
   snd (snd (Flush insertionSort (recordingHandler None)
      \<lparr>records = [DeleteRecord (Int64PK 7) 9, DeleteRecord (VarCharPK ''a'') 3,
                  DeleteRecord (Int64PK 8) 5], flushed = False\<rparr> [])) =
     [([VarCharPK ''a'', Int64PK 8, Int64PK 7], [3, 5, 9])]"
proof -
  let ?r = "\<lparr>records = [DeleteRecord (Int64PK 7) 9, DeleteRecord (VarCharPK ''a'') 3,
                  DeleteRecord (Int64PK 8) 5], flushed = False\<rparr>"
  obtain recs where
    "snd (snd (Flush insertionSort (recordingHandler None) ?r [])) =
       [] @ [(map pk recs, map timestamp recs)]"
    using Flush_sorts_then_applies_once
            [OF insertionSort_contract, of ?r "recordingHandler None" "[]" None "[]"]
    by blast
  moreover have "snd (snd (Flush insertionSort (recordingHandler None) ?r [])) =
     [([VarCharPK ''a'', Int64PK 8, Int64PK 7], [3, 5, 9])]"
    by code_simp
  ultimately show ?thesis using insertionSort_contract by simp
qed

text \<open>
  Claim C3 as the spec states it asks for a stable sort: equal timestamps keep the
  buffer's insertion order, which is what insertion sort computes. \<^verbatim>\<open>sort.Sort\<close>
  does not promise that. With the algorithm it used up to Go 1.18, seven buffered
  records whose first two share timestamp 2 reach the handler with those two exchanged.
\<close>

theorem Flush_stable_counterexample:
  "sort_Sort_contract shellInsertionSort \<and>
   snd (snd (Flush shellInsertionSort (recordingHandler None)
      \<lparr>records = [DeleteRecord (Int64PK 0) 2, DeleteRecord (Int64PK 1) 2,
                  DeleteRecord (Int64PK 2) 0, DeleteRecord (Int64PK 3) 0,
                  DeleteRecord (Int64PK 4) 0, DeleteRecord (Int64PK 5) 0,
                  DeleteRecord (Int64PK 6) 1], flushed = False\<rparr> [])) =
     [([Int64PK 2, Int64PK 3, Int64PK 4, Int64PK 5, Int64PK 6, Int64PK 1, Int64PK 0],
       [0, 0, 0, 0, 1, 2, 2])] \<and>
   map pk (insertionSort ByTimestamp_Less
      [DeleteRecord (Int64PK 0) 2, DeleteRecord (Int64PK 1) 2,
       DeleteRecord (Int64PK 2) 0, DeleteRecord (Int64PK 3) 0,
       DeleteRecord (Int64PK 4) 0, DeleteRecord (Int64PK 5) 0,
       DeleteRecord (Int64PK 6) 1]) =
     [Int64PK 2, Int64PK 3, Int64PK 4, Int64PK 5, Int64PK 6, Int64PK 0, Int64PK 1]"
proof (intro conjI)
  show "sort_Sort_contract shellInsertionSort"
    by (rule shellInsertionSort_contract)
qed code_simp+

text \<open>
  Claim C4: when the handler returns an error, \<^verbatim>\<open>Flush\<close> returns that error, the
  flushed flag is as it was and the buffer holds the same records (now sorted), so a
  buffer that was not flushed still takes every append whose timestamps do not run out;
  when the handler succeeds, the buffer is empty and flushed, \<^verbatim>\<open>TryAppend\<close> returns
  false on every input and changes nothing, and a later \<^verbatim>\<open>Flush\<close> leaves it flushed.
\<close>

theorem Flush_failure_retains_success_clears:
  assumes "sort_Sort_contract sortFn"
      and "Flush sortFn handler r st = (res, r', st')"
  shows "res = fst (handler (map pk (sortFn ByTimestamp_Less (records r)))
                      (map timestamp (sortFn ByTimestamp_Less (records r))) st) \<and>
         (res \<noteq> None \<longrightarrow>
            flushed r' = flushed r \<and> records r' = sortFn ByTimestamp_Less (records r) \<and>
            mset (records r') = mset (records r) \<and>
            (\<not> flushed r \<longrightarrow> (\<forall>pks tss. length pks \<le> length tss \<longrightarrow>
               TryAppend pks tss r' =
                 (Inr True, r'\<lparr>records := records r' @ map2 DeleteRecord pks tss\<rparr>)))) \<and>
         (res = None \<longrightarrow>
            records r' = [] \<and> flushed r' \<and>
            (\<forall>pks tss. TryAppend pks tss r' = (Inr False, r')) \<and>
            (\<forall>h s. flushed (fst (snd (Flush sortFn h r' s)))))"
proof -
  let ?recs = "sortFn ByTimestamp_Less (records r)"
  obtain e s1 where h: "handler (map pk ?recs) (map timestamp ?recs) st = (e, s1)"
    by (cases "handler (map pk ?recs) (map timestamp ?recs) st")
  have perm: "mset ?recs = mset (records r)"
    using sorted_by_timestamp [OF assms(1)] by blast
  show ?thesis
  proof (cases e)
    case None
    with h assms(2) have r': "res = None" "r' = r\<lparr>records := [], flushed := True\<rparr>"
      by (auto simp: Flush_def Let_def)
    have "flushed (fst (snd (Flush sortFn h r' s)))"
      for h :: "primaryKey list \<Rightarrow> Timestamp list \<Rightarrow> 'b \<Rightarrow> error option \<times> 'b" and s
      using r' by (auto simp: Flush_def Let_def split: prod.splits option.splits)
    then show ?thesis using r' h None by (simp add: TryAppend_flushed)
  next
    case (Some err)
    with h assms(2) have r': "res = Some err" "r' = r\<lparr>records := ?recs\<rparr>"
      by (auto simp: Flush_def Let_def)
    then show ?thesis using h Some perm by (simp add: TryAppend_unflushed)
  qed
qed

theorem Flush_failure_retains_success_clears_witness:
  "sort_Sort_contract insertionSort \<and>
   Flush insertionSort (recordingHandler (Some (ErrMsg ''engine down'')))
      \<lparr>records = [DeleteRecord (Int64PK 7) 9, DeleteRecord (Int64PK 8) 5], flushed = False\<rparr> []
     = (Some (ErrMsg ''engine down''),
        \<lparr>records = [DeleteRecord (Int64PK 8) 5, DeleteRecord (Int64PK 7) 9], flushed = False\<rparr>,
        [([Int64PK 8, Int64PK 7], [5, 9])]) \<and>
   TryAppend [Int64PK 1] [12]
      \<lparr>records = [DeleteRecord (Int64PK 8) 5, DeleteRecord (Int64PK 7) 9], flushed = False\<rparr>
     = (Inr True,
        \<lparr>records = [DeleteRecord (Int64PK 8) 5, DeleteRecord (Int64PK 7) 9,
                    DeleteRecord (Int64PK 1) 12], flushed = False\<rparr>) \<and>
   Flush insertionSort (recordingHandler None)
      \<lparr>records = [DeleteRecord (Int64PK 8) 5, DeleteRecord (Int64PK 7) 9], flushed = False\<rparr> []
     = (None, \<lparr>records = [], flushed = True\<rparr>, [([Int64PK 8, Int64PK 7], [5, 9])]) \<and>
   TryAppend [Int64PK 1] [12] \<lparr>records = [], flushed = True\<rparr>
     = (Inr False, \<lparr>records = [], flushed = True\<rparr>)"
proof -
  have f1: "Flush insertionSort (recordingHandler (Some (ErrMsg ''engine down'')))
      \<lparr>records = [DeleteRecord (Int64PK 7) 9, DeleteRecord (Int64PK 8) 5], flushed = False\<rparr> []
     = (Some (ErrMsg ''engine down''),
        \<lparr>records = [DeleteRecord (Int64PK 8) 5, DeleteRecord (Int64PK 7) 9], flushed = False\<rparr>,
        [([Int64PK 8, Int64PK 7], [5, 9])])"
    by (simp add: Flush_def recordingHandler_def insertionSort_def ByTimestamp_Less_def)
  have f2: "Flush insertionSort (recordingHandler None)
      \<lparr>records = [DeleteRecord (Int64PK 8) 5, DeleteRecord (Int64PK 7) 9], flushed = False\<rparr> []
     = (None, \<lparr>records = [], flushed = True\<rparr>, [([Int64PK 8, Int64PK 7], [5, 9])])"
    by (simp add: Flush_def recordingHandler_def insertionSort_def ByTimestamp_Less_def)
  have t1: "TryAppend [Int64PK 1] [12]
      \<lparr>records = [DeleteRecord (Int64PK 8) 5, DeleteRecord (Int64PK 7) 9], flushed = False\<rparr>
     = (Inr True,
        \<lparr>records = [DeleteRecord (Int64PK 8) 5, DeleteRecord (Int64PK 7) 9,
                    DeleteRecord (Int64PK 1) 12], flushed = False\<rparr>)"
    using Flush_failure_retains_success_clears [OF insertionSort_contract f1]
    by (simp add: insertionSort_def ByTimestamp_Less_def)
  have t2: "TryAppend [Int64PK 1] [12] \<lparr>records = [], flushed = True\<rparr>
     = (Inr False, \<lparr>records = [], flushed = True\<rparr>)"
    using Flush_failure_retains_success_clears [OF insertionSort_contract f2] by blast
  show ?thesis
    using insertionSort_contract f1 f2 t1 t2 by simp
qed

section \<open>Insert: reserving row offsets\<close>

text \<open>
  Claim C8: on a segment that is not growing (a sealed one) \<^verbatim>\<open>segmentPreInsert\<close> returns
  offset 0 and no error and leaves the segment as it is, with no engine call; on a
  growing segment it returns the unhealthy error when the segment is unhealthy, the
  error of the status when the engine's \<^verbatim>\<open>PreInsert\<close> reports a non-zero status, and
  otherwise the offset the engine reserved.
\<close>

theorem segmentPreInsert_cases:
  "(getType s \<noteq> segmentTypeGrowing \<longrightarrow> segmentPreInsert env n s = ((0, None), s)) \<and>
   (getType s = segmentTypeGrowing \<and> \<not> healthy s \<longrightarrow>
      segmentPreInsert env n s = ((- 1, Some (ErrSegmentUnhealthy (segmentID s))), s)) \<and>
   (getType s = segmentTypeGrowing \<and> healthy s \<longrightarrow>
      (let reply = engine env (engineCalls s) (segmentPtr s) (C_PreInsert n);
           s' = s\<lparr>engineCalls := engineCalls s @ [(segmentPtr s, C_PreInsert n)]\<rparr>
       in if error_code (status reply) \<noteq> 0
          then segmentPreInsert env n s =
                 ((0, Some (ErrCStatus ''PreInsert failed'' (error_code (status reply))
                              (error_msg (status reply)))), s')
          else segmentPreInsert env n s = ((num reply, None), s')))"
  by (simp add: segmentPreInsert_def callEngine_def HandleCStatus_def unhealthyError_def Let_def)

theorem segmentPreInsert_cases_witness:
  "segmentPreInsert (sampleEnv 0) 10 (sampleSegment segmentTypeSealed) =
     ((0, None), sampleSegment segmentTypeSealed) \<and>
   segmentPreInsert (sampleEnv 0) 10 (setUnhealthy (sampleSegment segmentTypeGrowing)) =
     ((- 1, Some (ErrSegmentUnhealthy 7)), setUnhealthy (sampleSegment segmentTypeGrowing)) \<and>
   fst (segmentPreInsert (sampleEnv 5) 10 (sampleSegment segmentTypeGrowing)) =
     (0, Some (ErrCStatus ''PreInsert failed'' 5 ''engine'')) \<and>
   fst (segmentPreInsert (sampleEnv 0) 10 (sampleSegment segmentTypeGrowing)) = (42, None) \<and>
   engineCalls (snd (segmentPreInsert (sampleEnv 0) 10 (sampleSegment segmentTypeGrowing))) =
     [(Some 1, C_PreInsert 10)]"
  using segmentPreInsert_cases [of "sampleSegment segmentTypeSealed" "sampleEnv 0" 10]
        segmentPreInsert_cases [of "setUnhealthy (sampleSegment segmentTypeGrowing)" "sampleEnv 0" 10]
        segmentPreInsert_cases [of "sampleSegment segmentTypeGrowing" "sampleEnv 5" 10]
        segmentPreInsert_cases [of "sampleSegment segmentTypeGrowing" "sampleEnv 0" 10]
  by (simp add: sampleEnv_def sampleSegment_def sampleReply_def getType_def healthy_def
        setUnhealthy_def Let_def)

section \<open>The primary-key existence check\<close>

lemma historyPkExist_iff: "historyPkExist env hs key \<longleftrightarrow> (\<exists>h\<in>set hs. PkExist env h key)"
  by (induction hs) auto

lemma isPKExist_iff:
  "isPKExist env key s \<longleftrightarrow>
     isLazyLoading s \<or> (\<exists>st. currentStat s = Some st \<and> PkExist env st key) \<or>
     (\<exists>h\<in>set (historyStats s). PkExist env h key)"
  by (auto simp: isPKExist_def historyPkExist_iff split: option.splits)

lemma updateStat_step:
  "k \<noteq> OtherPK \<Longrightarrow> updateStat env (k # ks) st = updateStat env ks (addKey env k st)"
  by (cases k) (simp_all add: addKey_def)

lemma updateStat_keeps:
  "noFalseNegatives env \<Longrightarrow> updateStat env ks st = (None, st') \<Longrightarrow>
   PkExist env st key \<Longrightarrow> PkExist env st' key"
proof (induction ks arbitrary: st)
  case Nil
  then show ?case by simp
next
  case (Cons k ks)
  show ?case
  proof (cases "k = OtherPK")
    case True
    with Cons.prems(2) show ?thesis by simp
  next
    case False
    have "updateStat env ks (addKey env k st) = (None, st')"
      using Cons.prems(2) by (simp only: updateStat_step [OF False])
    moreover have "PkExist env (addKey env k st) key"
      using Cons.prems(1,3) by (simp add: noFalseNegatives_def)
    ultimately show ?thesis using Cons.IH Cons.prems(1) by blast
  qed
qed

lemma updateStat_adds:
  "noFalseNegatives env \<Longrightarrow> updateStat env ks st = (None, st') \<Longrightarrow>
   key \<in> set ks \<Longrightarrow> PkExist env st' key"
proof (induction ks arbitrary: st)
  case Nil
  then show ?case by simp
next
  case (Cons k ks)
  show ?case
  proof (cases "k = OtherPK")
    case True
    with Cons.prems(2) show ?thesis by simp
  next
    case False
    have step: "updateStat env ks (addKey env k st) = (None, st')"
      using Cons.prems(2) by (simp only: updateStat_step [OF False])
    show ?thesis
    proof (cases "key = k")
      case True
      then have "PkExist env (addKey env k st) key"
        using Cons.prems(1) False by (simp add: noFalseNegatives_def)
      then show ?thesis using updateStat_keeps [OF Cons.prems(1) step] by simp
    next
      case False
      then have "key \<in> set ks" using Cons.prems(3) by simp
      then show ?thesis using Cons.IH [OF Cons.prems(1) step] by simp
    qed
  qed
qed

lemma updateBloomFilter_adds:
  assumes "noFalseNegatives env" "updateBloomFilter env ks s = (None, s')" "key \<in> set ks"
  shows "\<exists>st. currentStat s' = Some st \<and> PkExist env st key"
  using assms
  by (auto simp: updateBloomFilter_def Let_def InitCurrentStat_def
           split: option.splits prod.splits if_splits dest: updateStat_adds)

lemma sampleEnv_noFalseNegatives: "noFalseNegatives (sampleEnv code)"
proof -
  have a: "samplePkExist (addKey (sampleEnv code) k st) k" if "k \<noteq> OtherPK" for k st
    using that by (cases k; cases st) (simp_all add: addKey_def sampleEnv_def)
  have b: "samplePkExist (addKey (sampleEnv code) k' st) k" if "samplePkExist st k" for k k' st
    using that by (cases k; cases k'; cases st) (simp_all add: addKey_def sampleEnv_def)
  show ?thesis
    unfolding noFalseNegatives_def using a b by (simp add: sampleEnv_def)
qed

lemma littleEndian64_5: "littleEndian64 5 = [5, 0, 0, 0, 0, 0, 0, 0]"
  by (simp add: littleEndian64_def upt_conv_Cons)

lemma littleEndian64_6: "littleEndian64 6 = [6, 0, 0, 0, 0, 0, 0, 0]"
  by (simp add: littleEndian64_def upt_conv_Cons)

lemma littleEndian64_7: "littleEndian64 7 = [7, 0, 0, 0, 0, 0, 0, 0]"
  by (simp add: littleEndian64_def upt_conv_Cons)

lemma updateBloomFilter_frame:
  "lazyLoading (snd (updateBloomFilter env ks s)) = lazyLoading s \<and>
   historyStats (snd (updateBloomFilter env ks s)) = historyStats s"
  by (simp add: updateBloomFilter_def Let_def InitCurrentStat_def split: option.splits prod.splits)

lemma updateBloomFilter_keeps:
  assumes "noFalseNegatives env" "updateBloomFilter env ks s = (None, s')" "isPKExist env key s"
  shows "isPKExist env key s'"
proof -
  have fr: "lazyLoading s' = lazyLoading s" "historyStats s' = historyStats s"
    using updateBloomFilter_frame [of env ks s] assms(2) by simp_all
  consider (lazy) "isLazyLoading s"
    | (cur) st where "currentStat s = Some st" "PkExist env st key"
    | (hist) "\<exists>h\<in>set (historyStats s). PkExist env h key"
    using assms(3) isPKExist_iff [of env key s] by blast
  then show ?thesis
  proof cases
    case lazy
    then have "isLazyLoading s'" using fr by (simp add: isLazyLoading_def)
    then show ?thesis by (simp add: isPKExist_iff)
  next
    case cur
    then obtain st' where "updateStat env ks st = (None, st')" "currentStat s' = Some st'"
      using assms(2)
      by (auto simp: updateBloomFilter_def Let_def InitCurrentStat_def split: prod.splits)
    then have "currentStat s' = Some st' \<and> PkExist env st' key"
      using updateStat_keeps [OF assms(1) _ cur(2)] by blast
    then show ?thesis by (auto simp: isPKExist_iff)
  next
    case hist
    then show ?thesis using fr by (simp add: isPKExist_iff)
  qed
qed

text \<open>
  Claim C6: \<^verbatim>\<open>isPKExist\<close> returns true exactly when the segment is lazily loading its
  bloom filter, or the current generation reports the key, or some historical
  generation does; so it is never false for a key that a generation reports, and it is
  true for every key while lazily loading. With generations that have no false
  negatives, a call of \<^verbatim>\<open>updateBloomFilter\<close> that returns makes \<^verbatim>\<open>isPKExist\<close> true
  for every key it was given and leaves it true for every key it was true for before
  (the keys of earlier calls, of the historical generations, and all keys while lazily
  loading); the historical generations and the lazy-loading flag are as they were.
\<close>

theorem isPKExist_no_false_negative:
  "(isPKExist env key s \<longleftrightarrow>
      isLazyLoading s \<or> (\<exists>st. currentStat s = Some st \<and> PkExist env st key) \<or>
      (\<exists>h\<in>set (historyStats s). PkExist env h key)) \<and>
   (noFalseNegatives env \<and> updateBloomFilter env ks s = (None, s') \<longrightarrow>
      (key \<in> set ks \<longrightarrow> isPKExist env key s') \<and>
      (isPKExist env key s \<longrightarrow> isPKExist env key s') \<and>
      historyStats s' = historyStats s \<and> lazyLoading s' = lazyLoading s)"
proof (intro conjI impI; (elim conjE)?)
  show "isPKExist env key s \<longleftrightarrow>
      isLazyLoading s \<or> (\<exists>st. currentStat s = Some st \<and> PkExist env st key) \<or>
      (\<exists>h\<in>set (historyStats s). PkExist env h key)"
    by (rule isPKExist_iff)
next
  assume "noFalseNegatives env" "updateBloomFilter env ks s = (None, s')" "key \<in> set ks"
  then show "isPKExist env key s'"
    using updateBloomFilter_adds [of env ks s s' key] isPKExist_iff [of env key s'] by blast
next
  assume "noFalseNegatives env" "updateBloomFilter env ks s = (None, s')" "isPKExist env key s"
  then show "isPKExist env key s'" by (rule updateBloomFilter_keeps)
next
  assume "updateBloomFilter env ks s = (None, s')"
  then show "historyStats s' = historyStats s"
    using updateBloomFilter_frame [of env ks s] by simp
next
  assume "updateBloomFilter env ks s = (None, s')"
  then show "lazyLoading s' = lazyLoading s"
    using updateBloomFilter_frame [of env ks s] by simp
qed

text \<open>
  A sealed segment with one historical generation holding the key "old": key 5 is
  added, then key 6 in a second call. After both calls 5, 6 and "old" are reported and
  7 is not; while lazily loading, 7 is reported too.
\<close>

theorem isPKExist_no_false_negative_witness:
  "noFalseNegatives (sampleEnv 0) \<and>
   fst (updateBloomFilter (sampleEnv 0) [Int64PK 5]
          ((sampleSegment segmentTypeSealed)\<lparr>historyStats := [([], [''old''])]\<rparr>)) = None \<and>
   fst (updateBloomFilter (sampleEnv 0) [Int64PK 6]
          (snd (updateBloomFilter (sampleEnv 0) [Int64PK 5]
             ((sampleSegment segmentTypeSealed)\<lparr>historyStats := [([], [''old''])]\<rparr>)))) = None \<and>
   isPKExist (sampleEnv 0) (Int64PK 5)
     (snd (updateBloomFilter (sampleEnv 0) [Int64PK 6]
          (snd (updateBloomFilter (sampleEnv 0) [Int64PK 5]
             ((sampleSegment segmentTypeSealed)\<lparr>historyStats := [([], [''old''])]\<rparr>))))) \<and>
   isPKExist (sampleEnv 0) (Int64PK 6)
     (snd (updateBloomFilter (sampleEnv 0) [Int64PK 6]
          (snd (updateBloomFilter (sampleEnv 0) [Int64PK 5]
             ((sampleSegment segmentTypeSealed)\<lparr>historyStats := [([], [''old''])]\<rparr>))))) \<and>
   isPKExist (sampleEnv 0) (VarCharPK ''old'')
     (snd (updateBloomFilter (sampleEnv 0) [Int64PK 6]
          (snd (updateBloomFilter (sampleEnv 0) [Int64PK 5]
             ((sampleSegment segmentTypeSealed)\<lparr>historyStats := [([], [''old''])]\<rparr>))))) \<and>
   \<not> isPKExist (sampleEnv 0) (Int64PK 7)
     (snd (updateBloomFilter (sampleEnv 0) [Int64PK 6]
          (snd (updateBloomFilter (sampleEnv 0) [Int64PK 5]
             ((sampleSegment segmentTypeSealed)\<lparr>historyStats := [([], [''old''])]\<rparr>))))) \<and>
   isPKExist (sampleEnv 0) (Int64PK 7)
     ((sampleSegment segmentTypeSealed)\<lparr>lazyLoading := Some True\<rparr>)"
proof -
  let ?E = "sampleEnv 0 :: (bytes list \<times> string list) env"
  let ?S0 = "(sampleSegment segmentTypeSealed)\<lparr>historyStats := [([], [''old''])]\<rparr>"
  let ?S1 = "snd (updateBloomFilter ?E [Int64PK 5] ?S0)"
  let ?S2 = "snd (updateBloomFilter ?E [Int64PK 6] ?S1)"
  note defs = updateBloomFilter_def InitCurrentStat_def sampleEnv_def sampleSegment_def
  have ok1: "fst (updateBloomFilter ?E [Int64PK 5] ?S0) = None"
    by (simp add: defs)
  have ok2: "fst (updateBloomFilter ?E [Int64PK 6] ?S1) = None"
    by (simp add: defs)
  have eq1: "updateBloomFilter ?E [Int64PK 5] ?S0 = (None, ?S1)"
    using ok1 by (metis prod.collapse)
  have eq2: "updateBloomFilter ?E [Int64PK 6] ?S1 = (None, ?S2)"
    using ok2 by (metis prod.collapse)
  have nfn: "noFalseNegatives ?E" by (rule sampleEnv_noFalseNegatives)
  have old0: "isPKExist ?E (VarCharPK ''old'') ?S0"
    using isPKExist_no_false_negative [of ?E "VarCharPK ''old''" ?S0]
    by (simp add: sampleEnv_def sampleSegment_def)
  have five1: "isPKExist ?E (Int64PK 5) ?S1"
    using isPKExist_no_false_negative [of ?E "Int64PK 5" ?S0 "[Int64PK 5]" ?S1] nfn eq1
    by simp
  have old1: "isPKExist ?E (VarCharPK ''old'') ?S1"
    using isPKExist_no_false_negative [of ?E "VarCharPK ''old''" ?S0 "[Int64PK 5]" ?S1]
          nfn eq1 old0
    by blast
  have five2: "isPKExist ?E (Int64PK 5) ?S2"
    using isPKExist_no_false_negative [of ?E "Int64PK 5" ?S1 "[Int64PK 6]" ?S2] nfn eq2 five1
    by blast
  have six2: "isPKExist ?E (Int64PK 6) ?S2"
    using isPKExist_no_false_negative [of ?E "Int64PK 6" ?S1 "[Int64PK 6]" ?S2] nfn eq2
    by simp
  have old2: "isPKExist ?E (VarCharPK ''old'') ?S2"
    using isPKExist_no_false_negative [of ?E "VarCharPK ''old''" ?S1 "[Int64PK 6]" ?S2]
          nfn eq2 old1
    by blast
  have absent: "\<not> isPKExist ?E (Int64PK 7) ?S2"
    by (simp add: isPKExist_def isLazyLoading_def defs littleEndian64_5 littleEndian64_6
          littleEndian64_7)
  have lazy: "isPKExist ?E (Int64PK 7) ((sampleSegment segmentTypeSealed)\<lparr>lazyLoading := Some True\<rparr>)"
    using isPKExist_no_false_negative
            [of ?E "Int64PK 7" "(sampleSegment segmentTypeSealed)\<lparr>lazyLoading := Some True\<rparr>"]
    by (simp add: isLazyLoading_def)
  show ?thesis
    using nfn ok1 ok2 five2 six2 old2 absent lazy by blast
qed

section \<open>Applying deletes\<close>

lemma searchLoop_spec:
  assumes "i \<le> j" "j \<le> n"
      and "\<forall>k. k < i \<longrightarrow> \<not> f k" "\<forall>k. j \<le> k \<and> k < n \<longrightarrow> f k"
      and "\<forall>a b. a \<le> b \<and> b < n \<and> f a \<longrightarrow> f b"
  shows "i \<le> searchLoop f i j \<and> searchLoop f i j \<le> j \<and>
         (\<forall>k. k < searchLoop f i j \<longrightarrow> \<not> f k) \<and>
         (\<forall>k. searchLoop f i j \<le> k \<and> k < n \<longrightarrow> f k)"
  using assms
proof (induction f i j rule: searchLoop.induct)
  case (1 f i j)
  show ?case
  proof (cases "i < j")
    case False
    with "1.prems" have "i = j" by simp
    then show ?thesis using "1.prems" by (simp add: searchLoop.simps [of f j j])
  next
    case True
    define h where "h = (i + j) div 2"
    have hb: "i \<le> h" "h < j" using True by (simp_all add: h_def)
    have hn: "h < n" using hb "1.prems"(2) by simp
    show ?thesis
    proof (cases "f h")
      case False
      have below: "\<forall>k. k < h + 1 \<longrightarrow> \<not> f k"
      proof (intro allI impI notI)
        fix k assume "k < h + 1" "f k"
        then have "k \<le> h \<and> h < n \<and> f k" using hn by simp
        then have "f h" using "1.prems"(5) by blast
        then show False using False by simp
      qed
      have eq: "searchLoop f i j = searchLoop f (h + 1) j"
        using True False by (simp add: searchLoop.simps [of f i j] h_def Let_def)
      have le: "h + 1 \<le> j" using hb by simp
      have "h + 1 \<le> searchLoop f (h + 1) j \<and> searchLoop f (h + 1) j \<le> j \<and>
         (\<forall>k. k < searchLoop f (h + 1) j \<longrightarrow> \<not> f k) \<and>
         (\<forall>k. searchLoop f (h + 1) j \<le> k \<and> k < n \<longrightarrow> f k)"
        by (rule "1.IH"(1) [OF True h_def False le "1.prems"(2) below "1.prems"(4) "1.prems"(5)])
      then show ?thesis unfolding eq using hb by auto
    next
      case fh: True
      have above: "\<forall>k. h \<le> k \<and> k < n \<longrightarrow> f k"
        using "1.prems"(5) fh by blast
      have eq: "searchLoop f i j = searchLoop f i h"
        using True fh by (simp add: searchLoop.simps [of f i j] h_def Let_def)
      have nfh: "\<not> \<not> f h" using fh by simp
      have le: "h \<le> n" using hn by simp
      have "i \<le> searchLoop f i h \<and> searchLoop f i h \<le> h \<and>
         (\<forall>k. k < searchLoop f i h \<longrightarrow> \<not> f k) \<and>
         (\<forall>k. searchLoop f i h \<le> k \<and> k < n \<longrightarrow> f k)"
        by (rule "1.IH"(2) [OF True h_def nfh hb(1) le "1.prems"(3) above "1.prems"(5)])
      then show ?thesis unfolding eq using hb by auto
    qed
  qed
qed


lemma succ_le_iff_less:
  fixes w t :: "64 word"
  assumes "w \<noteq> - 1"
  shows "w + 1 \<le> t \<longleftrightarrow> w < t"
  by (simp add: assms inc_less_eq_iff)



lemma filter_split_at:
  assumes "r \<le> length xs" "\<forall>k. k < r \<longrightarrow> P (xs ! k)"
      and "\<forall>k. r \<le> k \<and> k < length xs \<longrightarrow> \<not> P (xs ! k)"
  shows "filter P xs = take r xs \<and> filter (\<lambda>x. \<not> P x) xs = drop r xs"
proof -
  have front: "\<forall>x\<in>set (take r xs). P x"
  proof
    fix x assume "x \<in> set (take r xs)"
    then obtain k where "k < length (take r xs)" "x = take r xs ! k"
      by (auto simp: in_set_conv_nth)
    then show "P x" using assms(1,2) by simp
  qed
  have rear: "\<forall>x\<in>set (drop r xs). \<not> P x"
  proof
    fix x assume "x \<in> set (drop r xs)"
    then obtain k where k: "k < length (drop r xs)" "x = drop r xs ! k"
      by (auto simp: in_set_conv_nth)
    then have "x = xs ! (r + k)" "r + k < length xs" using assms(1) by simp_all
    then show "\<not> P x" using assms(3) by simp
  qed
  have a: "filter P (take r xs) = take r xs" using front by (simp only: filter_id_conv)
  have b: "filter P (drop r xs) = []" using rear by (simp only: filter_empty_conv)
  have c: "filter (\<lambda>x. \<not> P x) (take r xs) = []"
    using front by (simp only: filter_empty_conv not_not)
  have d: "filter (\<lambda>x. \<not> P x) (drop r xs) = drop r xs"
    using rear by (simp only: filter_id_conv)
  have "filter P (take r xs @ drop r xs) = take r xs"
    by (simp only: filter_append a b append_Nil2)
  moreover have "filter (\<lambda>x. \<not> P x) (take r xs @ drop r xs) = drop r xs"
    by (simp only: filter_append c d append_Nil)
  ultimately show ?thesis by (simp only: append_take_drop_id) 
qed

lemma sort_Search_spec:
  assumes "\<forall>a b. a \<le> b \<and> b < n \<and> f a \<longrightarrow> f b"
  shows "sort_Search n f \<le> n \<and> (\<forall>k. k < sort_Search n f \<longrightarrow> \<not> f k) \<and>
         (\<forall>k. sort_Search n f \<le> k \<and> k < n \<longrightarrow> f k)"
proof -
  have "0 \<le> searchLoop f 0 n \<and> searchLoop f 0 n \<le> n \<and>
         (\<forall>k. k < searchLoop f 0 n \<longrightarrow> \<not> f k) \<and>
         (\<forall>k. searchLoop f 0 n \<le> k \<and> k < n \<longrightarrow> f k)"
  proof (rule searchLoop_spec)
    show "(0::nat) \<le> n" by simp
    show "n \<le> n" by simp
    show "\<forall>k. k < (0::nat) \<longrightarrow> \<not> f k" by simp
    show "\<forall>k. n \<le> k \<and> k < n \<longrightarrow> f k" by auto
    show "\<forall>a b. a \<le> b \<and> b < n \<and> f a \<longrightarrow> f b" by (rule assms)
  qed
  then show ?thesis unfolding sort_Search_def by blast
qed


lemma start_sorted:
  fixes w :: Timestamp
  assumes "sorted tss" "w \<noteq> - 1"
  shows "sort_Search (length tss) (\<lambda>i. tss ! i \<ge> w + 1) = length (filter (\<lambda>t. t \<le> w) tss) \<and>
         drop (sort_Search (length tss) (\<lambda>i. tss ! i \<ge> w + 1)) tss = filter (\<lambda>t. w < t) tss"
proof -
  define f where "f = (\<lambda>i. tss ! i \<ge> w + 1)"
  define r where "r = sort_Search (length tss) f"
  have f_eq: "f i \<longleftrightarrow> w < tss ! i" for i
    unfolding f_def by (rule succ_le_iff_less [OF assms(2)])
  have mono: "\<forall>a b. a \<le> b \<and> b < length tss \<and> f a \<longrightarrow> f b"
  proof (intro allI impI)
    fix a b assume h: "a \<le> b \<and> b < length tss \<and> f a"
    then have "tss ! a \<le> tss ! b" using assms(1) by (simp add: sorted_nth_mono)
    moreover have "w < tss ! a" using h f_eq by blast
    ultimately have "w < tss ! b" by (rule less_le_trans [rotated])
    then show "f b" using f_eq by blast
  qed
  have sp: "r \<le> length tss \<and> (\<forall>k. k < r \<longrightarrow> \<not> f k) \<and> (\<forall>k. r \<le> k \<and> k < length tss \<longrightarrow> f k)"
    unfolding r_def by (rule sort_Search_spec [OF mono])
  have 1: "r \<le> length tss" using sp by blast
  have 2: "\<forall>k. k < r \<longrightarrow> tss ! k \<le> w"
  proof (intro allI impI)
    fix k assume "k < r"
    then have "\<not> f k" using sp by blast
    then have "\<not> w < tss ! k" using f_eq by blast
    then show "tss ! k \<le> w" by (rule leI)
  qed
  have 3: "\<forall>k. r \<le> k \<and> k < length tss \<longrightarrow> \<not> tss ! k \<le> w"
  proof (intro allI impI)
    fix k assume "r \<le> k \<and> k < length tss"
    then have "f k" using sp by blast
    then have "w < tss ! k" using f_eq by blast
    then show "\<not> tss ! k \<le> w" by (rule less_le_not_le [THEN iffD1, THEN conjunct2])
  qed
  have fs: "filter (\<lambda>t. t \<le> w) tss = take r tss \<and> filter (\<lambda>t. \<not> t \<le> w) tss = drop r tss"
    by (rule filter_split_at [OF 1 2 3])
  have nl: "(\<lambda>t. \<not> t \<le> w) = (\<lambda>t. w < t)"
    by (rule ext) (rule not_le)
  have "r = length (filter (\<lambda>t. t \<le> w) tss)"
    using fs 1 by simp
  moreover have "drop r tss = filter (\<lambda>t. w < t) tss"
    using fs nl by metis
  ultimately show ?thesis unfolding r_def f_def by blast
qed


lemma start_all_old:
  fixes w :: Timestamp
  assumes "\<forall>t\<in>set tss. t \<le> w" "w \<noteq> - 1"
  shows "sort_Search (length tss) (\<lambda>i. tss ! i \<ge> w + 1) = length tss"
proof -
  define f where "f = (\<lambda>i. tss ! i \<ge> w + 1)"
  define r where "r = sort_Search (length tss) f"
  have nf: "\<not> f i" if "i < length tss" for i
  proof -
    have "tss ! i \<le> w" using assms(1) that by simp
    then have "\<not> w < tss ! i" by (rule leD)
    then show ?thesis unfolding f_def using succ_le_iff_less [OF assms(2)] by blast
  qed
  have mono: "\<forall>a b. a \<le> b \<and> b < length tss \<and> f a \<longrightarrow> f b"
  proof (intro allI impI)
    fix a b assume h: "a \<le> b \<and> b < length tss \<and> f a"
    then have "a < length tss" by simp
    then show "f b" using nf h by blast
  qed
  have sp: "r \<le> length tss \<and> (\<forall>k. k < r \<longrightarrow> \<not> f k) \<and> (\<forall>k. r \<le> k \<and> k < length tss \<longrightarrow> f k)"
    unfolding r_def by (rule sort_Search_spec [OF mono])
  have "r = length tss"
  proof (rule ccontr)
    assume "r \<noteq> length tss"
    then have lt: "r < length tss" using sp by simp
    then have "f r" using sp by blast
    then show False using nf [OF lt] by blast
  qed
  then show ?thesis unfolding r_def f_def .
qed


lemma start_wrapped:
  "sort_Search (length tss) (\<lambda>i. tss ! i \<ge> (- 1 :: Timestamp) + 1) = 0"
proof -
  have t: "\<forall>a b. a \<le> b \<and> b < length tss \<and> True \<longrightarrow> True" by simp
  have "\<forall>k. k < sort_Search (length tss) (\<lambda>i. True) \<longrightarrow> \<not> True"
    using sort_Search_spec [OF t] by blast
  then have "sort_Search (length tss) (\<lambda>i. True) = 0" by auto
  then show ?thesis by simp
qed

lemma sort_Search_True: "sort_Search n (\<lambda>i. True) = 0"
proof -
  have t: "\<forall>a b. a \<le> b \<and> b < n \<and> True \<longrightarrow> True" by simp
  have "\<forall>k. k < sort_Search n (\<lambda>i. True) \<longrightarrow> \<not> True"
    using sort_Search_spec [OF t] by blast
  then show ?thesis by auto
qed


text \<open>
  Claim C5, as the code has it: on a healthy segment whose watermark is not the largest
  64-bit value, \<^verbatim>\<open>deleteImpl\<close> of a batch whose timestamps are all at or before the
  watermark returns no error and leaves the segment as it is, so no engine call is
  made (sortedness is not even needed); on an unhealthy segment it returns the
  unhealthy error, again with the segment as it is.
\<close>

theorem deleteImpl_replay_is_noop:
  "(healthy s \<and> flushedDeletedTimestamp s \<noteq> - 1 \<and>
      (\<forall>t\<in>set tss. t \<le> flushedDeletedTimestamp s) \<longrightarrow>
      deleteImpl env pks tss s = (None, s)) \<and>
   (\<not> healthy s \<longrightarrow>
      deleteImpl env pks tss s = (Some (ErrSegmentUnhealthy (segmentID s)), s))"
proof (intro conjI impI)
  assume h: "healthy s \<and> flushedDeletedTimestamp s \<noteq> - 1 \<and>
      (\<forall>t\<in>set tss. t \<le> flushedDeletedTimestamp s)"
  then have "sort_Search (length tss) (\<lambda>i. tss ! i \<ge> flushedDeletedTimestamp s + 1) = length tss"
    by (intro start_all_old) simp_all
  then show "deleteImpl env pks tss s = (None, s)"
    using h by (simp add: deleteImpl_def)
next
  assume "\<not> healthy s"
  then show "deleteImpl env pks tss s = (Some (ErrSegmentUnhealthy (segmentID s)), s)"
    by (simp add: deleteImpl_def unhealthyError_def)
qed

theorem deleteImpl_replay_is_noop_witness:
  "deleteImpl (sampleEnv 0) [Int64PK 1, Int64PK 2] [3, 5]
      ((sampleSegment segmentTypeSealed)\<lparr>flushedDeletedTimestamp := 5\<rparr>) =
     (None, (sampleSegment segmentTypeSealed)\<lparr>flushedDeletedTimestamp := 5\<rparr>) \<and>
   deleteImpl (sampleEnv 0) [Int64PK 1, Int64PK 2] [3, 5]
      (setUnhealthy ((sampleSegment segmentTypeSealed)\<lparr>flushedDeletedTimestamp := 5\<rparr>)) =
     (Some (ErrSegmentUnhealthy 7),
      setUnhealthy ((sampleSegment segmentTypeSealed)\<lparr>flushedDeletedTimestamp := 5\<rparr>))"
  using deleteImpl_replay_is_noop
          [of "(sampleSegment segmentTypeSealed)\<lparr>flushedDeletedTimestamp := 5\<rparr>" "[3, 5]"
              "sampleEnv 0" "[Int64PK 1, Int64PK 2]"]
        deleteImpl_replay_is_noop
          [of "setUnhealthy ((sampleSegment segmentTypeSealed)\<lparr>flushedDeletedTimestamp := 5\<rparr>)"
              "[3, 5]" "sampleEnv 0" "[Int64PK 1, Int64PK 2]"]
  by (simp add: healthy_def setUnhealthy_def sampleSegment_def)

text \<open>
  Claim C5 as the spec states it holds for every segment. On an unhealthy segment the
  re-applied batch gets the unhealthy error. And the search predicate is
  \<^verbatim>\<open>timestamps[i] >= s.flushedDeletedTimestamp+1\<close>, whose right side wraps to 0 when
  the watermark is the largest \<^verbatim>\<open>uint64\<close>: then nothing is skipped and the batch
  goes to the engine again.
\<close>

theorem deleteImpl_replay_counterexample:
  "fst (deleteImpl (sampleEnv 0) [Int64PK 1] [5]
      (setUnhealthy ((sampleSegment segmentTypeSealed)\<lparr>flushedDeletedTimestamp := 9\<rparr>))) =
     Some (ErrSegmentUnhealthy 7) \<and>
   (5 :: Timestamp) \<le> - 1 \<and>
   engineCalls (snd (deleteImpl (sampleEnv 0) [Int64PK 1] [5]
      ((sampleSegment segmentTypeSealed)\<lparr>flushedDeletedTimestamp := - 1\<rparr>))) =
     [(Some 1, C_Delete 0 1 [1, 1] [5])]"
  by (simp add: deleteImpl_def healthy_def setUnhealthy_def sampleSegment_def sampleEnv_def
        unhealthyError_def sort_Search_True idsOfKeys_def callEngine_def sampleReply_def)


lemma deleteImpl_watermark:
  "flushedDeletedTimestamp (snd (deleteImpl env pks tss s)) = flushedDeletedTimestamp s"
  by (simp add: deleteImpl_def callEngine_def Let_def split: sum.splits prod.splits)

lemma deleteImpl_buffer:
  "deleteBuffer (snd (deleteImpl env pks tss s)) = deleteBuffer s"
  by (simp add: deleteImpl_def callEngine_def Let_def split: sum.splits prod.splits)

lemma deleteImpl_at_most_one_call:
  "\<exists>cs. engineCalls (snd (deleteImpl env pks tss s)) = engineCalls s @ cs \<and> length cs \<le> 1"
  by (simp add: deleteImpl_def callEngine_def Let_def split: sum.splits prod.splits)

lemma deleteImpl_suffix:
  assumes "healthy s" "sorted tss" "length pks = length tss" "flushedDeletedTimestamp s \<noteq> - 1"
  defines "start \<equiv> length (filter (\<lambda>t. t \<le> flushedDeletedTimestamp s) tss)"
  shows "drop start tss = filter (\<lambda>t. flushedDeletedTimestamp s < t) tss"
    and "start = length tss \<Longrightarrow> deleteImpl env pks tss s = (None, s)"
    and "start < length tss \<Longrightarrow> idsOfKeys (drop start pks) = Inr ids \<Longrightarrow>
         marshalIDs env ids = Inr blob \<Longrightarrow> blob \<noteq> [] \<Longrightarrow>
         deleteImpl env pks tss s =
           (HandleCStatus
              (status (engine env (engineCalls s) (segmentPtr s)
                 (C_Delete 0 (of_nat (length tss - start)) blob (drop start tss))))
              ''flush delete records failed'',
            s\<lparr>engineCalls := engineCalls s @
                 [(segmentPtr s, C_Delete 0 (of_nat (length tss - start)) blob (drop start tss))]\<rparr>)"
proof -
  have st: "sort_Search (length tss) (\<lambda>i. tss ! i \<ge> flushedDeletedTimestamp s + 1) = start"
    and dr: "drop (sort_Search (length tss) (\<lambda>i. tss ! i \<ge> flushedDeletedTimestamp s + 1)) tss
             = filter (\<lambda>t. flushedDeletedTimestamp s < t) tss"
    using start_sorted [OF assms(2,4)] unfolding start_def by blast+
  show "drop start tss = filter (\<lambda>t. flushedDeletedTimestamp s < t) tss"
    using dr st by simp
  show "start = length tss \<Longrightarrow> deleteImpl env pks tss s = (None, s)"
    using assms(1) st by (simp add: deleteImpl_def)
  show "start < length tss \<Longrightarrow> idsOfKeys (drop start pks) = Inr ids \<Longrightarrow>
         marshalIDs env ids = Inr blob \<Longrightarrow> blob \<noteq> [] \<Longrightarrow>
         deleteImpl env pks tss s =
           (HandleCStatus
              (status (engine env (engineCalls s) (segmentPtr s)
                 (C_Delete 0 (of_nat (length tss - start)) blob (drop start tss))))
              ''flush delete records failed'',
            s\<lparr>engineCalls := engineCalls s @
                 [(segmentPtr s, C_Delete 0 (of_nat (length tss - start)) blob (drop start tss))]\<rparr>)"
    using assms(1,3) st by (simp add: deleteImpl_def callEngine_def Let_def)
qed


lemma sorted_le_last: "sorted xs \<Longrightarrow> x \<in> set xs \<Longrightarrow> x \<le> last xs"
  for xs :: "Timestamp list"
proof (induction xs)
  case Nil
  then show ?case by simp
next
  case (Cons y ys)
  show ?case
  proof (cases "ys = []")
    case True
    then show ?thesis using Cons.prems by simp
  next
    case False
    then have "last ys \<in> set ys" by simp
    then have "y \<le> last ys" using Cons.prems(1) by simp
    then show ?thesis using Cons False by auto
  qed
qed

lemma FlushDelete_watermark:
  assumes "sort_Sort_contract (sort_Sort env)" "FlushDelete env s = (res, s')"
  shows "(res = None \<and> records (deleteBuffer s) \<noteq> [] \<longrightarrow>
            flushedDeletedTimestamp s' =
              last (map timestamp (sort_Sort env ByTimestamp_Less (records (deleteBuffer s)))) \<and>
            flushedDeletedTimestamp s' \<in> timestamp ` set (records (deleteBuffer s)) \<and>
            (\<forall>d\<in>set (records (deleteBuffer s)). timestamp d \<le> flushedDeletedTimestamp s')) \<and>
         (res \<noteq> None \<or> records (deleteBuffer s) = [] \<longrightarrow>
            flushedDeletedTimestamp s' = flushedDeletedTimestamp s)"
proof -
  define recs where "recs = sort_Sort env ByTimestamp_Less (records (deleteBuffer s))"
  define tss where "tss = map timestamp recs"
  have srt: "sorted tss" and ms: "mset recs = mset (records (deleteBuffer s))"
    using sorted_by_timestamp [OF assms(1), of "records (deleteBuffer s)"]
    unfolding recs_def tss_def by blast+
  have sets: "set recs = set (records (deleteBuffer s))"
    using ms by (rule mset_eq_setD)
  have empty_iff: "recs = [] \<longleftrightarrow> records (deleteBuffer s) = []"
    using ms by (metis mset_zero_iff)
  obtain e s1 where d: "deleteImpl env (map pk recs) tss s = (e, s1)"
    by (cases "deleteImpl env (map pk recs) tss s")
  have wm1: "flushedDeletedTimestamp s1 = flushedDeletedTimestamp s"
    using deleteImpl_watermark [of env "map pk recs" tss s] d by simp
  show ?thesis
  proof (cases "recs = []")
    case True
    then have "res = None" "flushedDeletedTimestamp s' = flushedDeletedTimestamp s"
      using assms(2)
      by (auto simp: FlushDelete_def Flush_def flushDeleteHandler_def Let_def recs_def)
    then show ?thesis using True empty_iff by simp
  next
    case False
    then have ne: "tss \<noteq> []" by (simp add: tss_def)
    have lst: "tss ! (length (map pk recs) - 1) = last tss"
      using ne by (simp add: last_conv_nth tss_def)
    show ?thesis
    proof (cases e)
      case None
      then have r: "res = None" "flushedDeletedTimestamp s' = last tss"
        using assms(2) d False lst
        by (auto simp: FlushDelete_def Flush_def flushDeleteHandler_def Let_def recs_def tss_def)
      have "last tss \<in> set tss" using ne by simp
      then have mem: "last tss \<in> timestamp ` set (records (deleteBuffer s))"
        using sets by (simp add: tss_def)
      have "\<forall>d\<in>set (records (deleteBuffer s)). timestamp d \<le> last tss"
      proof
        fix d assume "d \<in> set (records (deleteBuffer s))"
        then have "timestamp d \<in> set tss" using sets by (simp add: tss_def)
        then show "timestamp d \<le> last tss" using srt by (intro sorted_le_last)
      qed
      then show ?thesis using r mem False empty_iff by (simp add: tss_def recs_def)
    next
      case (Some err)
      then have "res = Some err" "flushedDeletedTimestamp s' = flushedDeletedTimestamp s"
        using assms(2) d False wm1
        by (auto simp: FlushDelete_def Flush_def flushDeleteHandler_def Let_def recs_def tss_def)
      then show ?thesis by simp
    qed
  qed
qed


lemma idsOfKeys_int64: "vs \<noteq> [] \<Longrightarrow> idsOfKeys (map Int64PK vs) = Inr (IntId vs)"
proof -
  have "int64Values (map Int64PK vs) = Some vs" by (induction vs) simp_all
  then show "vs \<noteq> [] \<Longrightarrow> idsOfKeys (map Int64PK vs) = Inr (IntId vs)"
    by (cases vs) (simp_all add: idsOfKeys_def)
qed

lemma idsOfKeys_varChar: "ss \<noteq> [] \<Longrightarrow> idsOfKeys (map VarCharPK ss) = Inr (StrId ss)"
proof -
  have "varCharValues (map VarCharPK ss) = Some ss" by (induction ss) simp_all
  then show "ss \<noteq> [] \<Longrightarrow> idsOfKeys (map VarCharPK ss) = Inr (StrId ss)"
    by (cases ss) (simp_all add: idsOfKeys_def)
qed

text \<open>
  Claim C1, as the code has it. On a healthy segment, with keys and timestamps of equal
  length, timestamps sorted ascending and a watermark that is not the largest 64-bit
  value, \<^verbatim>\<open>deleteImpl\<close> drops the records at or before the watermark: the timestamps
  it keeps are exactly those after the watermark. When none is left it returns no error
  and makes no engine call. Otherwise, when the keys left are converted to a key set
  (all \<^verbatim>\<open>int64\<close> keys, or all strings, give the key set of their values) and the key
  set marshals to a non-empty blob, it submits exactly one engine \<^verbatim>\<open>Delete\<close> call,
  for the records left, and the call's status decides the result. In every case
  \<^verbatim>\<open>deleteImpl\<close> leaves the watermark as it is and makes at most one engine call.
  The watermark moves in \<^verbatim>\<open>FlushDelete\<close> only: when the buffer is not empty and
  \<^verbatim>\<open>deleteImpl\<close> succeeds, to the last timestamp of the sorted buffer, which is the
  largest buffered timestamp; otherwise it stays.
\<close>

theorem deleteImpl_applies_suffix:
  "(healthy s \<and> sorted tss \<and> length pks = length tss \<and> flushedDeletedTimestamp s \<noteq> - 1 \<longrightarrow>
      (let w = flushedDeletedTimestamp s;
           start = length (filter (\<lambda>t. t \<le> w) tss);
           call = (\<lambda>blob. C_Delete 0 (of_nat (length tss - start)) blob (drop start tss))
       in drop start tss = filter (\<lambda>t. w < t) tss \<and>
          (start = length tss \<longrightarrow> deleteImpl env pks tss s = (None, s)) \<and>
          (start < length tss \<longrightarrow>
             (\<forall>ids blob. idsOfKeys (drop start pks) = Inr ids \<and>
                marshalIDs env ids = Inr blob \<and> blob \<noteq> [] \<longrightarrow>
                deleteImpl env pks tss s =
                  (HandleCStatus
                     (status (engine env (engineCalls s) (segmentPtr s) (call blob)))
                     ''flush delete records failed'',
                   s\<lparr>engineCalls := engineCalls s @ [(segmentPtr s, call blob)]\<rparr>))))) \<and>
   (vs \<noteq> [] \<longrightarrow> idsOfKeys (map Int64PK vs) = Inr (IntId vs)) \<and>
   (ss \<noteq> [] \<longrightarrow> idsOfKeys (map VarCharPK ss) = Inr (StrId ss)) \<and>
   flushedDeletedTimestamp (snd (deleteImpl env pks tss s)) = flushedDeletedTimestamp s \<and>
   (\<exists>cs. engineCalls (snd (deleteImpl env pks tss s)) = engineCalls s @ cs \<and> length cs \<le> 1) \<and>
   (sort_Sort_contract (sort_Sort env) \<and> FlushDelete env s = (res, s') \<longrightarrow>
      (res = None \<and> records (deleteBuffer s) \<noteq> [] \<longrightarrow>
         flushedDeletedTimestamp s' =
           last (map timestamp (sort_Sort env ByTimestamp_Less (records (deleteBuffer s)))) \<and>
         flushedDeletedTimestamp s' \<in> timestamp ` set (records (deleteBuffer s)) \<and>
         (\<forall>d\<in>set (records (deleteBuffer s)). timestamp d \<le> flushedDeletedTimestamp s')) \<and>
      (res \<noteq> None \<or> records (deleteBuffer s) = [] \<longrightarrow>
         flushedDeletedTimestamp s' = flushedDeletedTimestamp s))"
proof (intro conjI)
  show "healthy s \<and> sorted tss \<and> length pks = length tss \<and> flushedDeletedTimestamp s \<noteq> - 1 \<longrightarrow>
      (let w = flushedDeletedTimestamp s;
           start = length (filter (\<lambda>t. t \<le> w) tss);
           call = (\<lambda>blob. C_Delete 0 (of_nat (length tss - start)) blob (drop start tss))
       in drop start tss = filter (\<lambda>t. w < t) tss \<and>
          (start = length tss \<longrightarrow> deleteImpl env pks tss s = (None, s)) \<and>
          (start < length tss \<longrightarrow>
             (\<forall>ids blob. idsOfKeys (drop start pks) = Inr ids \<and>
                marshalIDs env ids = Inr blob \<and> blob \<noteq> [] \<longrightarrow>
                deleteImpl env pks tss s =
                  (HandleCStatus
                     (status (engine env (engineCalls s) (segmentPtr s) (call blob)))
                     ''flush delete records failed'',
                   s\<lparr>engineCalls := engineCalls s @ [(segmentPtr s, call blob)]\<rparr>))))"
  proof (intro impI, elim conjE)
    assume a: "healthy s" "sorted tss" "length pks = length tss" "flushedDeletedTimestamp s \<noteq> - 1"
    note L = deleteImpl_suffix [OF a]
    show "let w = flushedDeletedTimestamp s;
           start = length (filter (\<lambda>t. t \<le> w) tss);
           call = (\<lambda>blob. C_Delete 0 (of_nat (length tss - start)) blob (drop start tss))
       in drop start tss = filter (\<lambda>t. w < t) tss \<and>
          (start = length tss \<longrightarrow> deleteImpl env pks tss s = (None, s)) \<and>
          (start < length tss \<longrightarrow>
             (\<forall>ids blob. idsOfKeys (drop start pks) = Inr ids \<and>
                marshalIDs env ids = Inr blob \<and> blob \<noteq> [] \<longrightarrow>
                deleteImpl env pks tss s =
                  (HandleCStatus
                     (status (engine env (engineCalls s) (segmentPtr s) (call blob)))
                     ''flush delete records failed'',
                   s\<lparr>engineCalls := engineCalls s @ [(segmentPtr s, call blob)]\<rparr>)))"
      unfolding Let_def using L(1) L(2) L(3) by blast
  qed
  show "vs \<noteq> [] \<longrightarrow> idsOfKeys (map Int64PK vs) = Inr (IntId vs)"
    by (simp add: idsOfKeys_int64)
  show "ss \<noteq> [] \<longrightarrow> idsOfKeys (map VarCharPK ss) = Inr (StrId ss)"
    by (simp add: idsOfKeys_varChar)
  show "flushedDeletedTimestamp (snd (deleteImpl env pks tss s)) = flushedDeletedTimestamp s"
    by (rule deleteImpl_watermark)
  show "\<exists>cs. engineCalls (snd (deleteImpl env pks tss s)) = engineCalls s @ cs \<and> length cs \<le> 1"
    by (rule deleteImpl_at_most_one_call)
  show "sort_Sort_contract (sort_Sort env) \<and> FlushDelete env s = (res, s') \<longrightarrow>
      (res = None \<and> records (deleteBuffer s) \<noteq> [] \<longrightarrow>
         flushedDeletedTimestamp s' =
           last (map timestamp (sort_Sort env ByTimestamp_Less (records (deleteBuffer s)))) \<and>
         flushedDeletedTimestamp s' \<in> timestamp ` set (records (deleteBuffer s)) \<and>
         (\<forall>d\<in>set (records (deleteBuffer s)). timestamp d \<le> flushedDeletedTimestamp s')) \<and>
      (res \<noteq> None \<or> records (deleteBuffer s) = [] \<longrightarrow>
         flushedDeletedTimestamp s' = flushedDeletedTimestamp s)"
    using FlushDelete_watermark [of env s res s'] by blast
qed

text \<open>
  Claim C1 as the spec states it has every call of \<^verbatim>\<open>deleteImpl\<close> submit exactly one
  engine call and, on success, advance the watermark to the last applied timestamp. A
  successful \<^verbatim>\<open>deleteImpl\<close> of one record at timestamp 5 on a segment with watermark 0
  submits its call and leaves the watermark at 0; on a segment with watermark 9 it
  succeeds without any engine call.
\<close>

theorem deleteImpl_watermark_counterexample:
  "fst (deleteImpl (sampleEnv 0) [Int64PK 1] [5] (sampleSegment segmentTypeSealed)) = None \<and>
   engineCalls (snd (deleteImpl (sampleEnv 0) [Int64PK 1] [5] (sampleSegment segmentTypeSealed))) =
     [(Some 1, C_Delete 0 1 [1, 1] [5])] \<and>
   flushedDeletedTimestamp
     (snd (deleteImpl (sampleEnv 0) [Int64PK 1] [5] (sampleSegment segmentTypeSealed))) = 0 \<and>
   fst (deleteImpl (sampleEnv 0) [Int64PK 1] [5]
          ((sampleSegment segmentTypeSealed)\<lparr>flushedDeletedTimestamp := 9\<rparr>)) = None \<and>
   engineCalls (snd (deleteImpl (sampleEnv 0) [Int64PK 1] [5]
          ((sampleSegment segmentTypeSealed)\<lparr>flushedDeletedTimestamp := 9\<rparr>))) = []"
  by (intro conjI; code_simp)


theorem deleteImpl_applies_suffix_witness:
  "deleteImpl (sampleEnv 0) [Int64PK 1, Int64PK 2, Int64PK 3] [3, 5, 7]
      ((sampleSegment segmentTypeSealed)\<lparr>flushedDeletedTimestamp := 4\<rparr>) =
     (None, (sampleSegment segmentTypeSealed)
        \<lparr>flushedDeletedTimestamp := 4,
          engineCalls := [(Some 1, C_Delete 0 2 [1, 2, 3] [5, 7])]\<rparr>) \<and>
   fst (FlushDelete (sampleEnv 0) ((sampleSegment segmentTypeSealed)
      \<lparr>deleteBuffer := \<lparr>records = [DeleteRecord (Int64PK 1) 9, DeleteRecord (Int64PK 2) 5],
                         flushed = False\<rparr>\<rparr>)) = None \<and>
   flushedDeletedTimestamp (snd (FlushDelete (sampleEnv 0) ((sampleSegment segmentTypeSealed)
      \<lparr>deleteBuffer := \<lparr>records = [DeleteRecord (Int64PK 1) 9, DeleteRecord (Int64PK 2) 5],
                         flushed = False\<rparr>\<rparr>))) = 9 \<and>
   engineCalls (snd (FlushDelete (sampleEnv 0) ((sampleSegment segmentTypeSealed)
      \<lparr>deleteBuffer := \<lparr>records = [DeleteRecord (Int64PK 1) 9, DeleteRecord (Int64PK 2) 5],
                         flushed = False\<rparr>\<rparr>))) = [(Some 1, C_Delete 0 2 [1, 2, 1] [5, 9])]"
proof -
  let ?E = "sampleEnv 0 :: (bytes list \<times> string list) env"
  let ?S = "(sampleSegment segmentTypeSealed)\<lparr>flushedDeletedTimestamp := 4\<rparr>"
  let ?B = "(sampleSegment segmentTypeSealed)
      \<lparr>deleteBuffer := \<lparr>records = [DeleteRecord (Int64PK 1) 9, DeleteRecord (Int64PK 2) 5],
                         flushed = False\<rparr>\<rparr>"
  have pre: "healthy ?S \<and> sorted [3, 5, 7 :: Timestamp] \<and>
     length [Int64PK 1, Int64PK 2, Int64PK 3] = length [3, 5, 7 :: Timestamp] \<and>
     flushedDeletedTimestamp ?S \<noteq> - 1"
    by (simp add: healthy_def sampleSegment_def)
  have st: "length (filter (\<lambda>t. t \<le> flushedDeletedTimestamp ?S) [3, 5, 7 :: Timestamp]) = 1"
    by (simp add: sampleSegment_def)
  have ids: "idsOfKeys (drop 1 [Int64PK 1, Int64PK 2, Int64PK 3]) = Inr (IntId [2, 3]) \<and>
     marshalIDs ?E (IntId [2, 3]) = Inr [1, 2, 3] \<and> [1, 2, 3 :: 8 word] \<noteq> []"
    by (simp add: idsOfKeys_def sampleEnv_def)
  have one: "deleteImpl ?E [Int64PK 1, Int64PK 2, Int64PK 3] [3, 5, 7] ?S =
     (None, (sampleSegment segmentTypeSealed)
        \<lparr>flushedDeletedTimestamp := 4,
          engineCalls := [(Some 1, C_Delete 0 2 [1, 2, 3] [5, 7])]\<rparr>)"
    using deleteImpl_applies_suffix
            [of ?S "[3, 5, 7]" "[Int64PK 1, Int64PK 2, Int64PK 3]" ?E "[]" "[]" None ?S]
          pre ids
    unfolding Let_def st
    by (simp add: sampleSegment_def sampleEnv_def sampleReply_def HandleCStatus_def)
  have f1: "fst (FlushDelete ?E ?B) = None" by code_simp
  have f3: "engineCalls (snd (FlushDelete ?E ?B)) = [(Some 1, C_Delete 0 2 [1, 2, 1] [5, 9])]"
    by code_simp
  have feq: "FlushDelete ?E ?B = (None, snd (FlushDelete ?E ?B))"
    using f1 by (metis prod.collapse)
  have srt: "sort_Sort_contract (sort_Sort ?E)"
    using insertionSort_contract by (simp add: sampleEnv_def)
  have lst: "last (map timestamp (sort_Sort ?E ByTimestamp_Less (records (deleteBuffer ?B)))) = 9"
    by code_simp
  have ne: "records (deleteBuffer ?B) \<noteq> []" by (simp add: sampleSegment_def)
  have f2: "flushedDeletedTimestamp (snd (FlushDelete ?E ?B)) = 9"
    using deleteImpl_applies_suffix
            [of ?B "[]" "[]" ?E "[]" "[]" None "snd (FlushDelete ?E ?B)"]
          srt feq ne lst
    by simp
  show ?thesis using one f1 f2 f3 by blast
qed


section \<open>Deletes and the existence index\<close>

lemma deleteImpl_stats:
  "currentStat (snd (deleteImpl env pks tss s)) = currentStat s \<and>
   historyStats (snd (deleteImpl env pks tss s)) = historyStats s \<and>
   lazyLoading (snd (deleteImpl env pks tss s)) = lazyLoading s"
  by (simp add: deleteImpl_def callEngine_def Let_def split: sum.splits prod.splits)

lemma segmentDelete_stats:
  "currentStat (snd (segmentDelete env pks tss s)) = currentStat s \<and>
   historyStats (snd (segmentDelete env pks tss s)) = historyStats s \<and>
   lazyLoading (snd (segmentDelete env pks tss s)) = lazyLoading s"
  by (simp add: segmentDelete_def deleteImpl_stats split: sum.splits prod.splits bool.splits)

lemma FlushDelete_stats:
  "currentStat (snd (FlushDelete env s)) = currentStat s \<and>
   historyStats (snd (FlushDelete env s)) = historyStats s \<and>
   lazyLoading (snd (FlushDelete env s)) = lazyLoading s"
proof -
  let ?recs = "sort_Sort env ByTimestamp_Less (records (deleteBuffer s))"
  obtain e s1 where d: "deleteImpl env (map pk ?recs) (map timestamp ?recs) s = (e, s1)"
    by (cases "deleteImpl env (map pk ?recs) (map timestamp ?recs) s")
  have "currentStat s1 = currentStat s \<and> historyStats s1 = historyStats s \<and>
        lazyLoading s1 = lazyLoading s"
    using deleteImpl_stats [of env "map pk ?recs" "map timestamp ?recs" s] d by simp
  then show ?thesis
    using d
    by (auto simp: FlushDelete_def Flush_def flushDeleteHandler_def Let_def
             split: option.splits prod.splits)
qed

lemma isPKExist_cong:
  "currentStat s' = currentStat s \<Longrightarrow> historyStats s' = historyStats s \<Longrightarrow>
   lazyLoading s' = lazyLoading s \<Longrightarrow> isPKExist env key s' = isPKExist env key s"
  by (simp add: isPKExist_def isLazyLoading_def)

text \<open>
  Claim C9: \<^verbatim>\<open>segmentDelete\<close>, \<^verbatim>\<open>deleteImpl\<close> and \<^verbatim>\<open>FlushDelete\<close> leave the
  current generation, the historical generations and the lazy-loading flag as they
  are, whatever they return; so \<^verbatim>\<open>isPKExist\<close> answers after them what it answered
  before, and a key it reported before a delete was buffered and flushed is still
  reported afterwards.
\<close>

theorem delete_keeps_existence_index:
  "currentStat (snd (segmentDelete env pks tss s)) = currentStat s \<and>
   historyStats (snd (segmentDelete env pks tss s)) = historyStats s \<and>
   lazyLoading (snd (segmentDelete env pks tss s)) = lazyLoading s \<and>
   currentStat (snd (deleteImpl env pks tss s)) = currentStat s \<and>
   historyStats (snd (deleteImpl env pks tss s)) = historyStats s \<and>
   lazyLoading (snd (deleteImpl env pks tss s)) = lazyLoading s \<and>
   currentStat (snd (FlushDelete env s)) = currentStat s \<and>
   historyStats (snd (FlushDelete env s)) = historyStats s \<and>
   lazyLoading (snd (FlushDelete env s)) = lazyLoading s \<and>
   isPKExist env key (snd (segmentDelete env pks tss s)) = isPKExist env key s \<and>
   isPKExist env key (snd (deleteImpl env pks tss s)) = isPKExist env key s \<and>
   isPKExist env key (snd (FlushDelete env s)) = isPKExist env key s \<and>
   (isPKExist env key s \<longrightarrow>
      isPKExist env key (snd (FlushDelete env (snd (segmentDelete env pks tss s)))))"
proof -
  note sd = segmentDelete_stats [of env pks tss s]
  note di = deleteImpl_stats [of env pks tss s]
  note fd = FlushDelete_stats [of env s]
  note fd2 = FlushDelete_stats [of env "snd (segmentDelete env pks tss s)"]
  have e1: "isPKExist env key (snd (segmentDelete env pks tss s)) = isPKExist env key s"
    using sd by (intro isPKExist_cong) simp_all
  have e2: "isPKExist env key (snd (deleteImpl env pks tss s)) = isPKExist env key s"
    using di by (intro isPKExist_cong) simp_all
  have e3: "isPKExist env key (snd (FlushDelete env s)) = isPKExist env key s"
    using fd by (intro isPKExist_cong) simp_all
  have e4: "isPKExist env key (snd (FlushDelete env (snd (segmentDelete env pks tss s)))) =
            isPKExist env key (snd (segmentDelete env pks tss s))"
    using fd2 by (intro isPKExist_cong) simp_all
  show ?thesis using sd di fd e1 e2 e3 e4 by blast
qed



text \<open>
  Keys 5 and 6 are added to the existence index of a growing segment, the delete of
  key 5 at timestamp 101 is buffered and then flushed to the engine, and key 5 is still
  reported.
\<close>

theorem delete_keeps_existence_index_witness:
  "fst (updateBloomFilter (sampleEnv 0) [Int64PK 5, Int64PK 6]
          (sampleSegment segmentTypeGrowing)) = None \<and>
   fst (segmentDelete (sampleEnv 0) [Int64PK 5] [101]
          (snd (updateBloomFilter (sampleEnv 0) [Int64PK 5, Int64PK 6]
             (sampleSegment segmentTypeGrowing)))) = None \<and>
   fst (FlushDelete (sampleEnv 0)
          (snd (segmentDelete (sampleEnv 0) [Int64PK 5] [101]
             (snd (updateBloomFilter (sampleEnv 0) [Int64PK 5, Int64PK 6]
                (sampleSegment segmentTypeGrowing)))))) = None \<and>
   engineCalls (snd (FlushDelete (sampleEnv 0)
          (snd (segmentDelete (sampleEnv 0) [Int64PK 5] [101]
             (snd (updateBloomFilter (sampleEnv 0) [Int64PK 5, Int64PK 6]
                (sampleSegment segmentTypeGrowing))))))) = [(Some 1, C_Delete 0 1 [1, 5] [101])] \<and>
   isPKExist (sampleEnv 0) (Int64PK 5)
     (snd (FlushDelete (sampleEnv 0)
          (snd (segmentDelete (sampleEnv 0) [Int64PK 5] [101]
             (snd (updateBloomFilter (sampleEnv 0) [Int64PK 5, Int64PK 6]
                (sampleSegment segmentTypeGrowing)))))))"
proof -
  let ?E = "sampleEnv 0 :: (bytes list \<times> string list) env"
  let ?S1 = "snd (updateBloomFilter ?E [Int64PK 5, Int64PK 6] (sampleSegment segmentTypeGrowing))"
  let ?S2 = "snd (segmentDelete ?E [Int64PK 5] [101] ?S1)"
  let ?S3 = "snd (FlushDelete ?E ?S2)"
  have a: "fst (updateBloomFilter ?E [Int64PK 5, Int64PK 6] (sampleSegment segmentTypeGrowing)) = None"
    by code_simp
  have b: "fst (segmentDelete ?E [Int64PK 5] [101] ?S1) = None" by code_simp
  have c: "fst (FlushDelete ?E ?S2) = None" by code_simp
  have d: "engineCalls ?S3 = [(Some 1, C_Delete 0 1 [1, 5] [101])]" by code_simp
  have e: "isPKExist ?E (Int64PK 5) ?S1" by code_simp
  have "isPKExist ?E (Int64PK 5) ?S3"
    using delete_keeps_existence_index [of ?E "[Int64PK 5]" "[101]" ?S1 "Int64PK 5"] e
    by blast
  then show ?thesis using a b c d by blast
qed




section \<open>Malformed delete input\<close>

text \<open>
  \<^verbatim>\<open>segmentDelete\<close> checks its input first: an empty key sequence, or key and
  timestamp sequences of different lengths, get an error, with the segment as it is.
\<close>

lemma segmentDelete_rejects_malformed:
  "pks = [] \<or> length pks \<noteq> length tss \<Longrightarrow>
   \<exists>m. segmentDelete env pks tss s = (Some (ErrMsg m), s)"
  by (auto simp: segmentDelete_def)

text \<open>
  Claim C7 at \<^verbatim>\<open>segmentLoadDeletedRecord\<close>, which appends to the delete buffer
  before any check. With two keys and one timestamp on a segment whose buffer is not
  flushed, the first record is buffered and then \<^verbatim>\<open>timestamps[1]\<close> panics; with one
  key and two timestamps the record is buffered and no error is returned; with no key
  at all no error is returned either. \<^verbatim>\<open>segmentDelete\<close> rejects the first input.
\<close>

theorem segmentLoadDeletedRecord_malformed_input:
  "segmentLoadDeletedRecord (sampleEnv 0) [Int64PK 1, Int64PK 2] [5] 2
      (sampleSegment segmentTypeSealed) =
     (Some (GoPanic ''index out of range''),
      (sampleSegment segmentTypeSealed)
        \<lparr>deleteBuffer := \<lparr>records = [DeleteRecord (Int64PK 1) 5], flushed = False\<rparr>\<rparr>) \<and>
   segmentLoadDeletedRecord (sampleEnv 0) [Int64PK 1] [5, 6] 2
      (sampleSegment segmentTypeSealed) =
     (None,
      (sampleSegment segmentTypeSealed)
        \<lparr>deleteBuffer := \<lparr>records = [DeleteRecord (Int64PK 1) 5], flushed = False\<rparr>\<rparr>) \<and>
   segmentLoadDeletedRecord (sampleEnv 0) [] [] 0 (sampleSegment segmentTypeSealed) =
     (None, sampleSegment segmentTypeSealed) \<and>
   segmentDelete (sampleEnv 0) [Int64PK 1, Int64PK 2] [5] (sampleSegment segmentTypeSealed) =
     (Some (ErrMsg ''length of entityIDs not equal to length of timestamps''),
      sampleSegment segmentTypeSealed)"
  by (simp add: segmentLoadDeletedRecord_def segmentDelete_def TryAppend_def sampleSegment_def)


section \<open>The unhealthy segment\<close>


























section \<open>Hydration past the last binlog\<close>















end
